theory Spec2Isabelle
  imports Complex_Main "HOL-Library.AList"
begin

section \<open>Argument values\<close>

text \<open>
  The arguments of a parameterized selector are arbitrary JavaScript values
  (\<^verbatim>\<open>Params extends any[]\<close>). The value universe of this development:
  \<^item> \<open>JNum n\<close> is a finite, integer-valued number (a safe integer); \<open>JNaN\<close> and
    \<open>JInf negative\<close> are the non-finite numbers;
  \<^item> \<open>JFun name source\<close> is a function with its \<^verbatim>\<open>name\<close> and its \<^verbatim>\<open>toString()\<close> text;
  \<^item> \<open>JObj props\<close> is a plain object, its own enumerable string-keyed properties
    listed in the order \<^verbatim>\<open>Object.keys\<close> enumerates them;
  \<^item> \<open>JMap\<close> and \<open>JSet\<close> list their entries in insertion order; \<open>JDate iso\<close> is a
    valid date with its \<^verbatim>\<open>toISOString()\<close> text; \<open>JRegExp text\<close> is a regular expression
    with its \<^verbatim>\<open>toString()\<close> text; \<open>JError name message\<close> is an error object;
    \<open>JTyped ctor elems\<close> is a typed array of integer elements with its constructor name;
  \<^item> \<open>JCyclic keys\<close> is an object whose property graph reaches the object itself,
    with its own enumerable key names.
  Strings are lists of 8-bit characters.
\<close>

datatype jsval =
    JNull
  | JUndefined
  | JBool bool
  | JNum int
  | JNaN
  | JInf bool
  | JStr string
  | JBigInt int
  | JSymbol string
  | JFun string string
  | JObj "(string \<times> jsval) list"
  | JArr "jsval list"
  | JMap "(jsval \<times> jsval) list"
  | JSet "jsval list"
  | JDate string
  | JRegExp string
  | JError string string
  | JTyped string "int list"
  | JCyclic "string list"

subsection \<open>Number and string rendering of the language\<close>

definition digit_char :: "nat \<Rightarrow> char" where
  "digit_char d = ''0123456789'' ! d"

fun show_nat :: "nat \<Rightarrow> string" where
  "show_nat n = (if n < 10 then [digit_char n] else show_nat (n div 10) @ [digit_char (n mod 10)])"

declare show_nat.simps [simp del]

text \<open>\<^verbatim>\<open>Number.prototype.toString\<close> on an integer-valued number.\<close>

definition show_int :: "int \<Rightarrow> string" where
  "show_int i = (if i < 0 then CHR ''-'' # show_nat (nat (- i)) else show_nat (nat i))"

text \<open>\<^verbatim>\<open>Array.prototype.join\<close> on an array of strings.\<close>

fun join_with :: "string \<Rightarrow> string list \<Rightarrow> string" where
  "join_with sep [] = []"
| "join_with sep [x] = x"
| "join_with sep (x # y # ys) = x @ sep @ join_with sep (y # ys)"

definition hex_digit :: "nat \<Rightarrow> char" where
  "hex_digit d = ''0123456789abcdef'' ! d"

text \<open>
  \<^verbatim>\<open>QuoteJSONString\<close>: the double quote and the backslash are escaped, the control
  characters below 0x20 are written with their short escape or as \<^verbatim>\<open>\u00XX\<close>.
\<close>

definition escape_char :: "char \<Rightarrow> string" where
  "escape_char c =
     (if c = CHR 0x08 then [CHR 0x5C, CHR ''b'']
      else if c = CHR 0x09 then [CHR 0x5C, CHR ''t'']
      else if c = CHR 0x0A then [CHR 0x5C, CHR ''n'']
      else if c = CHR 0x0C then [CHR 0x5C, CHR ''f'']
      else if c = CHR 0x0D then [CHR 0x5C, CHR ''r'']
      else if c = CHR 0x22 then [CHR 0x5C, CHR 0x22]
      else if c = CHR 0x5C then [CHR 0x5C, CHR 0x5C]
      else if (of_char c :: nat) < 32
        then [CHR 0x5C, CHR ''u'', CHR ''0'', CHR ''0'',
              hex_digit ((of_char c :: nat) div 16), hex_digit ((of_char c :: nat) mod 16)]
      else [c])"

definition QuoteJSONString :: "string \<Rightarrow> string" where
  "QuoteJSONString s = CHR 0x22 # concat (map escape_char s) @ [CHR 0x22]"

text \<open>
  \<^verbatim>\<open>String(value)\<close> on the primitive values; the key encoder applies it to no other
  value, and it is left unspecified there.
\<close>

fun js_String :: "jsval \<Rightarrow> string" where
  "js_String JNull = ''null''"
| "js_String JUndefined = ''undefined''"
| "js_String (JBool b) = (if b then ''true'' else ''false'')"
| "js_String (JNum n) = show_int n"
| "js_String JNaN = ''NaN''"
| "js_String (JInf negative) = (if negative then ''-Infinity'' else ''Infinity'')"
| "js_String (JStr s) = s"
| "js_String (JBigInt n) = show_int n"
| "js_String (JSymbol d) = ''Symbol('' @ d @ '')''"

text \<open>\<^verbatim>\<open>typeof value === 'object'\<close> for a value that is not \<^verbatim>\<open>null\<close>.\<close>

fun is_object :: "jsval \<Rightarrow> bool" where
  "is_object (JObj _) = True"
| "is_object (JArr _) = True"
| "is_object (JMap _) = True"
| "is_object (JSet _) = True"
| "is_object (JDate _) = True"
| "is_object (JRegExp _) = True"
| "is_object (JError _ _) = True"
| "is_object (JTyped _ _) = True"
| "is_object (JCyclic _) = True"
| "is_object _ = False"

text \<open>
  \<^verbatim>\<open>Object.keys\<close> of an object: the own enumerable string keys. An array and a typed
  array have their indices; a Map, Set, Date, RegExp or Error has none. The key encoder
  applies it to objects only, and it is left unspecified on the other values.
\<close>

fun Object_keys :: "jsval \<Rightarrow> string list" where
  "Object_keys (JObj props) = map fst props"
| "Object_keys (JArr xs) = map show_nat [0..<length xs]"
| "Object_keys (JTyped ctor elems) = map show_nat [0..<length elems]"
| "Object_keys (JCyclic ks) = ks"
| "Object_keys (JMap entries) = []"
| "Object_keys (JSet xs) = []"
| "Object_keys (JDate isoText) = []"
| "Object_keys (JRegExp text) = []"
| "Object_keys (JError name message) = []"

section \<open>Structural key encoder\<close>

text \<open>
  \<^verbatim>\<open>JSON.stringify(params, replacer)\<close> either throws, or yields no text for the value
  (\<^verbatim>\<open>undefined\<close>: the value is left out of an object and written \<^verbatim>\<open>null\<close> in an
  array), or yields a text.
\<close>

datatype json_result = Throws | NoText | Text string

definition array_text :: "json_result list \<Rightarrow> json_result" where
  "array_text rs =
     (if Throws \<in> set rs then Throws
      else Text (''['' @ join_with '','' (map (\<lambda>r. case r of Text t \<Rightarrow> t | _ \<Rightarrow> ''null'') rs) @ '']''))"

definition object_text :: "(string \<times> json_result) list \<Rightarrow> json_result" where
  "object_text rs =
     (if Throws \<in> set (map snd rs) then Throws
      else Text (''{'' @ join_with '',''
             (concat (map (\<lambda>(k, r). case r of Text t \<Rightarrow> [QuoteJSONString k @ '':'' @ t] | _ \<Rightarrow> []) rs))
             @ ''}''))"

text \<open>
  The serialization of one property value. Each value first passes the replacer of
  \<^verbatim>\<open>getCacheKeyForParams\<close>: a function becomes the string
  \<^verbatim>\<open>__fn_<name or anonymous>_<first 100 characters of its text>\<close>, a Map the array
  \<^verbatim>\<open>['__Map', ...entries]\<close>, a Set \<^verbatim>\<open>['__Set', ...values]\<close>, a RegExp
  \<^verbatim>\<open>['__RegExp', text]\<close>, an Error \<^verbatim>\<open>['__Error', name, message]\<close>, a typed array
  \<^verbatim>\<open>['__TypedArray', constructor name, elements]\<close>; the elements of the array the
  replacer returns are serialized in turn. A Date reaches the replacer as the string its
  \<^verbatim>\<open>toJSON\<close> returned. A BigInt and a cyclic object make the serialization throw.
\<close>

fun serialize :: "jsval \<Rightarrow> json_result" where
  "serialize JNull = Text ''null''"
| "serialize JUndefined = NoText"
| "serialize (JBool b) = Text (if b then ''true'' else ''false'')"
| "serialize (JNum n) = Text (show_int n)"
| "serialize JNaN = Text ''null''"
| "serialize (JInf negative) = Text ''null''"
| "serialize (JStr s) = Text (QuoteJSONString s)"
| "serialize (JBigInt n) = Throws"
| "serialize (JSymbol d) = NoText"
| "serialize (JFun name source) =
     Text (QuoteJSONString (''__fn_'' @ (if name = [] then ''anonymous'' else name) @ ''_'' @ take 100 source))"
| "serialize (JObj props) = object_text (map (\<lambda>(k, v). (k, serialize v)) props)"
| "serialize (JArr xs) = array_text (map serialize xs)"
| "serialize (JMap entries) =
     array_text (Text (QuoteJSONString ''__Map'')
                 # map (\<lambda>(k, v). array_text [serialize k, serialize v]) entries)"
| "serialize (JSet xs) = array_text (Text (QuoteJSONString ''__Set'') # map serialize xs)"
| "serialize (JDate isoText) = Text (QuoteJSONString isoText)"
| "serialize (JRegExp text) =
     array_text [Text (QuoteJSONString ''__RegExp''), Text (QuoteJSONString text)]"
| "serialize (JError name message) =
     array_text [Text (QuoteJSONString ''__Error''), Text (QuoteJSONString name),
                 Text (QuoteJSONString message)]"
| "serialize (JTyped ctor elems) =
     array_text [Text (QuoteJSONString ''__TypedArray''), Text (QuoteJSONString ctor),
                 array_text (map (\<lambda>n. Text (show_int n)) elems)]"
| "serialize (JCyclic ks) = Throws"

text \<open>The fallback of \<^verbatim>\<open>getCacheKeyForParams\<close> for one parameter.\<close>

definition fallback_param :: "jsval \<Rightarrow> string" where
  "fallback_param param =
     (if param = JNull then ''null''
      else if param = JUndefined then ''undefined''
      else case param of
             JFun name source \<Rightarrow> ''fn_'' @ (if name = [] then ''anonymous'' else name)
           | _ \<Rightarrow> if is_object param then ''obj_'' @ join_with ''_'' (Object_keys param)
                  else js_String param)"

text \<open>
  \<^verbatim>\<open>getCacheKeyForParams\<close>: the structural encoding of the parameter array, and the
  fallback when it throws. The report to the error collector has no effect on the key or
  on the cache and is left out, as are the console logs of hits and misses below.
\<close>

definition getCacheKeyForParams :: "jsval list \<Rightarrow> string" where
  "getCacheKeyForParams params =
     (case serialize (JArr params) of
        Text key \<Rightarrow> key
      | _ \<Rightarrow> join_with ''|'' (map fallback_param params))"

section \<open>The parameterized selector factory\<close>

subsection \<open>Configuration\<close>

text \<open>
  \<^verbatim>\<open>ParameterizedSelectorOptions\<close> after the merge with the defaults. The numbers
  \<^verbatim>\<open>maxSize\<close> and \<^verbatim>\<open>expireAfter\<close> are taken as integers; an unset
  \<^verbatim>\<open>expireAfter\<close> or \<^verbatim>\<open>debugLabel\<close> is \<open>None\<close>.
\<close>

record 'r options =
  maxSize :: int
  equalityCheck :: "'r \<Rightarrow> 'r \<Rightarrow> bool"
  debugLabel :: "string option"
  trackPerformance :: bool
  logMisses :: bool
  logHits :: bool
  expireAfter :: "int option"

definition DEFAULT_OPTIONS :: "'r options" where
  "DEFAULT_OPTIONS =
     \<lparr>maxSize = 10, equalityCheck = (\<lambda>a b. a = b), debugLabel = None, trackPerformance = False,
      logMisses = False, logHits = False, expireAfter = None\<rparr>"

subsection \<open>The single-state memoized selector\<close>

text \<open>
  Each cache entry owns the selector that
  \<^verbatim>\<open>createSelector([(state) => state], (state) => selector(state, ...params), {memoizeOptions: {resultEqualityCheck: equalityCheck}})\<close>
  returns. It is a library object; its documented behaviour is modelled: it closes over
  the parameters of the call that created it, remembers the last state it was called
  with and the result it returned, answers a call with that same state from the
  remembered result without calling the wrapped selector, and counts the calls it makes
  to the wrapped selector (\<^verbatim>\<open>recomputations()\<close>). When a recomputed result is equal
  to the remembered one by \<^verbatim>\<open>resultEqualityCheck\<close>, the remembered one is returned. An
  exception of the wrapped selector passes through and nothing is remembered. States are
  compared by reference in the library and by equality here.
\<close>

record ('st, 'r) memoized =
  closed_params :: "jsval list"
  last_call :: "('st \<times> 'r) option"
  recomputations :: nat

definition createSelector :: "jsval list \<Rightarrow> ('st, 'r) memoized" where
  "createSelector params = \<lparr>closed_params = params, last_call = None, recomputations = 0\<rparr>"

definition recompute ::
  "('r \<Rightarrow> 'r \<Rightarrow> bool) \<Rightarrow> ('st \<Rightarrow> jsval list \<Rightarrow> 'e + 'r) \<Rightarrow> 'st \<Rightarrow> ('st, 'r) memoized
    \<Rightarrow> ('e + 'r) \<times> ('st, 'r) memoized" where
  "recompute eq sel st m =
     (case sel st (closed_params m) of
        Inl ex \<Rightarrow> (Inl ex, m\<lparr>recomputations := recomputations m + 1\<rparr>)
      | Inr v \<Rightarrow>
          (let v' = (case last_call m of
                       Some (s, r) \<Rightarrow> if eq r v then r else v
                     | None \<Rightarrow> v)
           in (Inr v', m\<lparr>last_call := Some (st, v'), recomputations := recomputations m + 1\<rparr>)))"

definition run_memoized ::
  "('r \<Rightarrow> 'r \<Rightarrow> bool) \<Rightarrow> ('st \<Rightarrow> jsval list \<Rightarrow> 'e + 'r) \<Rightarrow> 'st \<Rightarrow> ('st, 'r) memoized
    \<Rightarrow> ('e + 'r) \<times> ('st, 'r) memoized" where
  "run_memoized eq sel st m =
     (case last_call m of
        Some (s, r) \<Rightarrow> if s = st then (Inr r, m) else recompute eq sel st m
      | None \<Rightarrow> recompute eq sel st m)"

subsection \<open>Cache entries and the state of one factory instance\<close>

record ('st, 'r) cache_entry =
  selector :: "('st, 'r) memoized"
  lastUsed :: int
  created :: int
  hits :: nat
  misses :: nat
  executionTime :: int

text \<open>
  The closure variables of \<^verbatim>\<open>createParameterizedSelector\<close>. \<open>selectorCache\<close> is the
  \<^verbatim>\<open>Map\<close>, as the list of its entries in insertion order: \<^verbatim>\<open>set\<close> is
  \<^const>\<open>AList.update\<close> (an existing key keeps its place, a new one is appended),
  \<^verbatim>\<open>delete\<close> is \<^const>\<open>AList.delete\<close>, \<^verbatim>\<open>get\<close> is \<^const>\<open>map_of\<close>.
\<close>

record ('st, 'r) factory =
  selectorCache :: "(string \<times> ('st, 'r) cache_entry) list"
  keyUsage :: "string list"
  totalHits :: nat
  totalMisses :: nat
  totalExecutionTime :: int

definition createParameterizedSelector :: "('st, 'r) factory" where
  "createParameterizedSelector =
     \<lparr>selectorCache = [], keyUsage = [], totalHits = 0, totalMisses = 0, totalExecutionTime = 0\<rparr>"

text \<open>
  One call \<^verbatim>\<open>factorySelector(state, ...params)\<close> with the clock readings it meets:
  \<open>call_now\<close> is what \<^verbatim>\<open>dateUtils.create()\<close> returns in the lookup, \<open>call_perfNow\<close>
  what \<^verbatim>\<open>performance.now()\<close> returns after the computation. \<open>call_perfStart\<close> is
  the reading of the performance clock when the computation starts; the code does not
  read it, it is kept to speak about the duration of the computation. Clock readings
  are integers (ticks).
\<close>

record 'st call =
  call_state :: 'st
  call_params :: "jsval list"
  call_now :: int
  call_perfStart :: int
  call_perfNow :: int

definition duration :: "'st call \<Rightarrow> int" where
  "duration c = call_perfNow c - call_perfStart c"

subsection \<open>Lookup, eviction and expiry\<close>

text \<open>
  \<^verbatim>\<open>const oldestKey = keyUsage.shift(); if (oldestKey) selectorCache.delete(oldestKey);\<close>
  An empty string is falsy.
\<close>

definition evict_oldest :: "('st, 'r) factory \<Rightarrow> ('st, 'r) factory" where
  "evict_oldest s =
     (case keyUsage s of
        [] \<Rightarrow> s
      | oldestKey # rest \<Rightarrow>
          s\<lparr>keyUsage := rest,
            selectorCache := (if oldestKey \<noteq> [] then AList.delete oldestKey (selectorCache s)
                              else selectorCache s)\<rparr>)"

text \<open>
  \<^verbatim>\<open>cacheEntry && expireAfter && (now - cacheEntry.created > expireAfter)\<close>: an
  \<^verbatim>\<open>expireAfter\<close> that is unset or 0 is falsy.
\<close>

definition is_expired :: "'r options \<Rightarrow> int \<Rightarrow> ('st, 'r) cache_entry \<Rightarrow> bool" where
  "is_expired opts now e =
     (case expireAfter opts of
        None \<Rightarrow> False
      | Some T \<Rightarrow> T \<noteq> 0 \<and> now - created e > T)"

definition getOrCreateCacheEntry ::
  "'r options \<Rightarrow> jsval list \<Rightarrow> int \<Rightarrow> ('st, 'r) factory
    \<Rightarrow> ('st, 'r) cache_entry \<times> ('st, 'r) factory" where
  "getOrCreateCacheEntry opts params now s =
     (let cacheKey = getCacheKeyForParams params;
          usage = remove1 cacheKey (keyUsage s) @ [cacheKey];
          found = map_of (selectorCache s) cacheKey;
          expired = (case found of Some e \<Rightarrow> is_expired opts now e | None \<Rightarrow> False);
          cache = (if expired then AList.delete cacheKey (selectorCache s) else selectorCache s)
      in case (if expired then None else found) of
           None \<Rightarrow>
             (let cacheEntry = \<lparr>selector = createSelector params, lastUsed = now, created = now,
                                hits = 0, misses = 1, executionTime = 0\<rparr>;
                  s1 = s\<lparr>selectorCache := AList.update cacheKey cacheEntry cache,
                         keyUsage := usage,
                         totalMisses := totalMisses s + 1\<rparr>
              in (cacheEntry,
                  if int (length (selectorCache s1)) > maxSize opts then evict_oldest s1 else s1))
         | Some e \<Rightarrow>
             (let cacheEntry = e\<lparr>lastUsed := now, hits := hits e + 1\<rparr>
              in (cacheEntry,
                  s\<lparr>selectorCache := AList.update cacheKey cacheEntry cache,
                    keyUsage := usage,
                    totalHits := totalHits s + 1\<rparr>)))"

text \<open>
  \<^verbatim>\<open>computeResult\<close>: the entry's selector is run; with \<^verbatim>\<open>trackPerformance\<close> the
  reading of \<^verbatim>\<open>performance.now()\<close> minus the entry's \<^verbatim>\<open>executionTime\<close> is added
  to the entry's \<^verbatim>\<open>executionTime\<close> and to \<^verbatim>\<open>totalExecutionTime\<close>. An exception of
  the selector leaves before the tracking.
\<close>

definition computeResult ::
  "'r options \<Rightarrow> ('st \<Rightarrow> jsval list \<Rightarrow> 'e + 'r) \<Rightarrow> 'st \<Rightarrow> int \<Rightarrow> ('st, 'r) cache_entry
    \<Rightarrow> ('st, 'r) factory \<Rightarrow> ('e + 'r) \<times> ('st, 'r) cache_entry \<times> ('st, 'r) factory" where
  "computeResult opts sel st perfNow cacheEntry s =
     (case run_memoized (equalityCheck opts) sel st (selector cacheEntry) of
        (Inl ex, m) \<Rightarrow> (Inl ex, cacheEntry\<lparr>selector := m\<rparr>, s)
      | (Inr result, m) \<Rightarrow>
          (let e1 = cacheEntry\<lparr>selector := m\<rparr>
           in if trackPerformance opts
              then (let t = perfNow - executionTime e1
                    in (Inr result, e1\<lparr>executionTime := executionTime e1 + t\<rparr>,
                        s\<lparr>totalExecutionTime := totalExecutionTime s + t\<rparr>))
              else (Inr result, e1, s)))"

text \<open>
  The entry \<^verbatim>\<open>computeResult\<close> mutates is the object the \<^verbatim>\<open>Map\<close> holds under the
  key of the call, unless the lookup has evicted that very key: the mutated entry is
  written back under the key when the key is still present.
\<close>

definition write_back ::
  "string \<Rightarrow> ('st, 'r) cache_entry \<Rightarrow> ('st, 'r) factory \<Rightarrow> ('st, 'r) factory" where
  "write_back key e s =
     (if key \<in> fst ` set (selectorCache s)
      then s\<lparr>selectorCache := AList.update key e (selectorCache s)\<rparr> else s)"

definition factorySelector ::
  "'r options \<Rightarrow> ('st \<Rightarrow> jsval list \<Rightarrow> 'e + 'r) \<Rightarrow> 'st call \<Rightarrow> ('st, 'r) factory
    \<Rightarrow> ('e + 'r) \<times> ('st, 'r) factory" where
  "factorySelector opts sel c s =
     (case getOrCreateCacheEntry opts (call_params c) (call_now c) s of
        (cacheEntry, s1) \<Rightarrow>
          (case computeResult opts sel (call_state c) (call_perfNow c) cacheEntry s1 of
             (result, e2, s2) \<Rightarrow>
               (result, write_back (getCacheKeyForParams (call_params c)) e2 s2)))"

text \<open>A sequence of calls on one factory instance, each running to completion.\<close>

fun run_calls ::
  "'r options \<Rightarrow> ('st \<Rightarrow> jsval list \<Rightarrow> 'e + 'r) \<Rightarrow> 'st call list \<Rightarrow> ('st, 'r) factory
    \<Rightarrow> ('st, 'r) factory" where
  "run_calls opts sel [] s = s"
| "run_calls opts sel (c # cs) s = run_calls opts sel cs (snd (factorySelector opts sel c s))"

subsection \<open>Introspection and cache management\<close>

definition clearCache :: "('st, 'r) factory \<Rightarrow> ('st, 'r) factory" where
  "clearCache s = s\<lparr>selectorCache := [], keyUsage := []\<rparr>"

record entry_stats =
  es_key :: string
  es_hits :: nat
  es_misses :: nat
  es_lastUsed :: int
  es_created :: int
  es_executionTime :: int
  es_age :: int

record stats =
  cacheSize :: nat
  stats_maxSize :: int
  stats_totalHits :: nat
  stats_totalMisses :: nat
  hitRate :: real
  stats_totalExecutionTime :: int
  averageExecutionTime :: real
  entries :: "entry_stats list"

definition getStats :: "'r options \<Rightarrow> int \<Rightarrow> ('st, 'r) factory \<Rightarrow> stats" where
  "getStats opts now s =
     \<lparr>cacheSize = length (selectorCache s),
      stats_maxSize = maxSize opts,
      stats_totalHits = totalHits s,
      stats_totalMisses = totalMisses s,
      hitRate = real (totalHits s) / real (max 1 (totalHits s + totalMisses s)),
      stats_totalExecutionTime = totalExecutionTime s,
      averageExecutionTime =
        real_of_int (totalExecutionTime s) / real (max 1 (totalHits s + totalMisses s)),
      entries = map (\<lambda>(key, e). \<lparr>es_key = key, es_hits = hits e, es_misses = misses e,
                                  es_lastUsed = lastUsed e, es_created = created e,
                                  es_executionTime = executionTime e,
                                  es_age = now - created e\<rparr>) (selectorCache s)\<rparr>"

text \<open>
  \<^verbatim>\<open>invalidateCache(predicate?)\<close>. \<^verbatim>\<open>JSON.parse\<close> is the platform's parser, taken as
  the parameter \<open>parse\<close>: \<open>parse key = None\<close> when it throws. A predicate that throws
  (\<open>None\<close>) is caught by the same \<^verbatim>\<open>try\<close>. The result is the value returned:
  \<open>None\<close> for \<^verbatim>\<open>undefined\<close>.
\<close>

definition key_matches :: "(string \<Rightarrow> jsval option) \<Rightarrow> (jsval \<Rightarrow> bool option) \<Rightarrow> string \<Rightarrow> bool" where
  "key_matches parse predicate key =
     (case parse key of
        None \<Rightarrow> False
      | Some params \<Rightarrow> (case predicate params of Some b \<Rightarrow> b | None \<Rightarrow> False))"

definition remove_key :: "string \<Rightarrow> ('st, 'r) factory \<Rightarrow> ('st, 'r) factory" where
  "remove_key key s =
     s\<lparr>selectorCache := AList.delete key (selectorCache s), keyUsage := remove1 key (keyUsage s)\<rparr>"

definition invalidateCache ::
  "(string \<Rightarrow> jsval option) \<Rightarrow> (jsval \<Rightarrow> bool option) option \<Rightarrow> ('st, 'r) factory
    \<Rightarrow> nat option \<times> ('st, 'r) factory" where
  "invalidateCache parse predicate s =
     (case predicate of
        None \<Rightarrow> (None, clearCache s)
      | Some p \<Rightarrow>
          (let keysToRemove = filter (key_matches parse p) (map fst (selectorCache s))
           in (Some (length keysToRemove), fold remove_key keysToRemove s)))"

section \<open>The pagination selector\<close>














definition createPaginationSelector_options :: "'r options" where
  "createPaginationSelector_options =
     DEFAULT_OPTIONS\<lparr>maxSize := 20, debugLabel := Some ''PaginationSelector''\<rparr>"

section \<open>Vocabulary of the properties\<close>

definition cache_keys :: "('st, 'r) factory \<Rightarrow> string list" where
  "cache_keys s = map fst (selectorCache s)"

text \<open>
  The store invariant: the \<^verbatim>\<open>Map\<close> has each key once, the LRU order lists exactly the
  keys of the \<^verbatim>\<open>Map\<close>, each once, and no key is the empty string.
\<close>

definition store_inv :: "('st, 'r) factory \<Rightarrow> bool" where
  "store_inv s \<longleftrightarrow>
     distinct (cache_keys s) \<and> distinct (keyUsage s) \<and> set (keyUsage s) = set (cache_keys s)
     \<and> [] \<notin> set (keyUsage s)"

text \<open>The entry a miss inserts.\<close>

definition fresh_entry :: "jsval list \<Rightarrow> int \<Rightarrow> ('st, 'r) cache_entry" where
  "fresh_entry params now =
     \<lparr>selector = createSelector params, lastUsed = now, created = now, hits = 0, misses = 1,
      executionTime = 0\<rparr>"

text \<open>A call registers as a hit, or as a miss, by the counter it increments.\<close>

definition registers_hit :: "('st, 'r) factory \<Rightarrow> ('st, 'r) factory \<Rightarrow> bool" where
  "registers_hit s s' \<longleftrightarrow> totalHits s' = totalHits s + 1 \<and> totalMisses s' = totalMisses s"

definition registers_miss :: "('st, 'r) factory \<Rightarrow> ('st, 'r) factory \<Rightarrow> bool" where
  "registers_miss s s' \<longleftrightarrow> totalMisses s' = totalMisses s + 1 \<and> totalHits s' = totalHits s"

text \<open>The state right after a miss has inserted its entry, before any eviction.\<close>

definition inserted :: "'r options \<Rightarrow> jsval list \<Rightarrow> int \<Rightarrow> ('st, 'r) factory \<Rightarrow> ('st, 'r) factory" where
  "inserted opts params now s =
     s\<lparr>selectorCache := AList.update (getCacheKeyForParams params) (fresh_entry params now)
                          (AList.delete (getCacheKeyForParams params) (selectorCache s)),
       keyUsage := remove1 (getCacheKeyForParams params) (keyUsage s) @ [getCacheKeyForParams params],
       totalMisses := totalMisses s + 1\<rparr>"

text \<open>A call on state \<open>st\<close> at clock reading \<open>now\<close> whose computation takes no time.\<close>

definition call_at :: "'st \<Rightarrow> jsval list \<Rightarrow> int \<Rightarrow> 'st call" where
  "call_at st params now =
     \<lparr>call_state = st, call_params = params, call_now = now, call_perfStart = now,
      call_perfNow = now\<rparr>"

text \<open>The key has an entry in the \<^verbatim>\<open>Map\<close> that is not expired at the clock reading \<open>now\<close>.\<close>

definition live_entry :: "'r options \<Rightarrow> int \<Rightarrow> ('st, 'r) factory \<Rightarrow> string \<Rightarrow> bool" where
  "live_entry opts now s key =
     (case map_of (selectorCache s) key of None \<Rightarrow> False | Some e \<Rightarrow> \<not> is_expired opts now e)"

text \<open>A selector for the examples: the state, a number, plus the number of parameters.\<close>

definition count_params :: "nat \<Rightarrow> jsval list \<Rightarrow> unit + nat" where
  "count_params st params = Inr (st + length params)"


text \<open>
  The predicate \<^verbatim>\<open>(params) => params[0] > 1\<close> of the repository's invalidation test,
  whose selector has \<^verbatim>\<open>Params = [id: number]\<close>: defined on a decoded tuple that starts
  with a finite number; any other decoded value is outside the predicate's parameter
  type (\<open>None\<close>).
\<close>

definition first_param_above_one :: "jsval \<Rightarrow> bool option" where
  "first_param_above_one params =
     (case params of JArr (JNum n # rest) \<Rightarrow> Some (1 < n) | _ \<Rightarrow> None)"

text \<open>A decoder for the examples: it decodes the keys of the tuples (1), (2) and (3) as
  \<^verbatim>\<open>JSON.parse\<close> does, and no other key.\<close>

definition decode_small_tuple :: "string \<Rightarrow> jsval option" where
  "decode_small_tuple key =
     (if key = ''[1]'' then Some (JArr [JNum 1])
      else if key = ''[2]'' then Some (JArr [JNum 2])
      else if key = ''[3]'' then Some (JArr [JNum 3])
      else None)"

text \<open>
  The values whose text in the key tells them apart: \<^verbatim>\<open>null\<close>, the booleans, the finite
  numbers and the strings. (\<^verbatim>\<open>undefined\<close>, \<^verbatim>\<open>NaN\<close>, the infinities and symbols are
  written \<^verbatim>\<open>null\<close> in the key; a BigInt makes the structural encoding throw.)
\<close>

fun json_primitive :: "jsval \<Rightarrow> bool" where
  "json_primitive JNull = True"
| "json_primitive (JBool b) = True"
| "json_primitive (JNum n) = True"
| "json_primitive (JStr s) = True"
| "json_primitive _ = False"

text \<open>
  What follows the text of an array element or of an object member: a comma, the closing
  bracket or the closing brace.
\<close>

definition delimited :: "string \<Rightarrow> bool" where
  "delimited r \<longleftrightarrow> (\<exists>r'. r = CHR '','' # r' \<or> r = CHR '']'' # r' \<or> r = CHR ''}'' # r')"

definition is_digit :: "char \<Rightarrow> bool" where
  "is_digit c \<longleftrightarrow> c \<in> set ''0123456789''"

text \<open>
  The texts the structural encoder writes for one value: the literals, the numbers, the
  quoted strings, the arrays and the objects of such texts.
\<close>

inductive value_text :: "string \<Rightarrow> bool" where
  literal_null: "value_text ''null''"
| literal_true: "value_text ''true''"
| literal_false: "value_text ''false''"
| number: "value_text (show_int i)"
| quoted: "value_text (QuoteJSONString s)"
| array: "(\<forall>t \<in> set ts. value_text t) \<Longrightarrow> value_text (''['' @ join_with '','' ts @ '']'')"
| object: "(\<forall>(k, t) \<in> set kts. value_text t) \<Longrightarrow>
     value_text (''{'' @ join_with '','' (map (\<lambda>(k, t). QuoteJSONString k @ '':'' @ t) kts) @ ''}'')"

text \<open>The kind of value a text starts: told by its first character.\<close>

definition start_kind :: "string \<Rightarrow> nat" where
  "start_kind t =
     (case t of
        [] \<Rightarrow> 0
      | c # rest \<Rightarrow>
          if c = CHR ''['' then 1
          else if c = CHR ''{'' then 2
          else if c = CHR 0x22 then 3
          else if is_digit c \<or> c = CHR ''-'' then 4
          else if c = CHR ''n'' \<or> c = CHR ''t'' \<or> c = CHR ''f'' then 5
          else 0)"

text \<open>The text an array element contributes: \<^verbatim>\<open>null\<close> when the value yields none.\<close>

definition element_text :: "json_result \<Rightarrow> string" where
  "element_text r = (case r of Text t \<Rightarrow> t | _ \<Rightarrow> ''null'')"

section \<open>Properties of the pagination selector\<close>



lemma total_pages_empty: "\<lceil>real_of_int 0 / real_of_int p\<rceil> = 0"
  by simp

section \<open>Properties of the parameterized selector\<close>

subsection \<open>The cache key is never empty\<close>

lemma show_nat_nonempty: "show_nat n \<noteq> []"
  by (subst show_nat.simps) simp

lemma show_int_nonempty: "show_int i \<noteq> []"
  by (simp add: show_int_def show_nat_nonempty)

lemma fallback_param_empty: "fallback_param p = [] \<Longrightarrow> p = JStr []"
  by (cases p) (auto simp: fallback_param_def show_int_nonempty split: if_splits)

lemma array_text_not_NoText: "array_text rs \<noteq> NoText"
  by (simp add: array_text_def)

lemma join_with_two_nonempty: "sep \<noteq> [] \<Longrightarrow> join_with sep (x # y # ys) \<noteq> []"
  by simp

lemma getCacheKeyForParams_nonempty: "getCacheKeyForParams params \<noteq> []"
proof (cases "serialize (JArr params)")
  case Throws
  then have thr: "Throws \<in> set (map serialize params)"
    by (simp add: array_text_def split: if_splits)
  have key: "getCacheKeyForParams params = join_with ''|'' (map fallback_param params)"
    using Throws by (simp add: getCacheKeyForParams_def)
  show ?thesis
  proof (cases params)
    case Nil
    with thr show ?thesis by simp
  next
    case (Cons p ps)
    show ?thesis
    proof (cases ps)
      case Nil
      with Cons thr have "serialize p = Throws" by simp
      then have "p \<noteq> JStr []" by auto
      then have "fallback_param p \<noteq> []" using fallback_param_empty by blast
      with key Cons Nil show ?thesis by simp
    next
      case (Cons q qs)
      with key \<open>params = p # ps\<close> show ?thesis by simp
    qed
  qed
next
  case NoText
  then show ?thesis using array_text_not_NoText[of "map serialize params"] by simp
next
  case (Text t)
  then have "t \<noteq> []" by (auto simp: array_text_def split: if_splits)
  with Text show ?thesis by (simp add: getCacheKeyForParams_def)
qed

subsection \<open>The lookup, case by case\<close>

lemma getOrCreateCacheEntry_hit:
  assumes "map_of (selectorCache s) (getCacheKeyForParams params) = Some e"
    and "\<not> is_expired opts now e"
  shows "getOrCreateCacheEntry opts params now s =
    (e\<lparr>lastUsed := now, hits := hits e + 1\<rparr>,
     s\<lparr>selectorCache := AList.update (getCacheKeyForParams params) (e\<lparr>lastUsed := now, hits := hits e + 1\<rparr>) (selectorCache s),
       keyUsage := remove1 (getCacheKeyForParams params) (keyUsage s) @ [getCacheKeyForParams params],
       totalHits := totalHits s + 1\<rparr>)"
  using assms by (simp add: getOrCreateCacheEntry_def Let_def)

lemma getOrCreateCacheEntry_miss:
  assumes "case map_of (selectorCache s) (getCacheKeyForParams params) of
             None \<Rightarrow> True | Some e \<Rightarrow> is_expired opts now e"
  shows "getOrCreateCacheEntry opts params now s =
    (fresh_entry params now,
     if int (length (selectorCache (inserted opts params now s))) > maxSize opts
     then evict_oldest (inserted opts params now s) else inserted opts params now s)"
proof (cases "map_of (selectorCache s) (getCacheKeyForParams params)")
  case None
  then have "getCacheKeyForParams params \<notin> fst ` set (selectorCache s)"
    by (simp add: map_of_eq_None_iff)
  then have "AList.delete (getCacheKeyForParams params) (selectorCache s) = selectorCache s"
    by simp
  with None show ?thesis
    by (simp add: getOrCreateCacheEntry_def Let_def inserted_def fresh_entry_def)
next
  case (Some e)
  with assms have "is_expired opts now e" by simp
  with Some show ?thesis
    by (simp add: getOrCreateCacheEntry_def Let_def inserted_def fresh_entry_def)
qed

subsection \<open>What the computation leaves alone\<close>

lemma computeResult_frame:
  assumes "computeResult opts sel st p e s = (res, e', s')"
  shows "selectorCache s' = selectorCache s" and "keyUsage s' = keyUsage s"
    and "totalHits s' = totalHits s" and "totalMisses s' = totalMisses s"
  using assms
  by (auto simp: computeResult_def Let_def split: prod.splits sum.splits if_splits)

lemma write_back_frame:
  shows "cache_keys (write_back k e s) = cache_keys s"
    and "keyUsage (write_back k e s) = keyUsage s"
    and "totalHits (write_back k e s) = totalHits s"
    and "totalMisses (write_back k e s) = totalMisses s"
    and "totalExecutionTime (write_back k e s) = totalExecutionTime s"
  by (auto simp: write_back_def cache_keys_def update_keys)

lemma factorySelector_frame:
  shows "cache_keys (snd (factorySelector opts sel c s))
           = cache_keys (snd (getOrCreateCacheEntry opts (call_params c) (call_now c) s))"
    and "keyUsage (snd (factorySelector opts sel c s))
           = keyUsage (snd (getOrCreateCacheEntry opts (call_params c) (call_now c) s))"
    and "totalHits (snd (factorySelector opts sel c s))
           = totalHits (snd (getOrCreateCacheEntry opts (call_params c) (call_now c) s))"
    and "totalMisses (snd (factorySelector opts sel c s))
           = totalMisses (snd (getOrCreateCacheEntry opts (call_params c) (call_now c) s))"
proof -
  obtain e1 s1 where g: "getOrCreateCacheEntry opts (call_params c) (call_now c) s = (e1, s1)"
    by (cases "getOrCreateCacheEntry opts (call_params c) (call_now c) s")
  obtain res e2 s2 where
    r: "computeResult opts sel (call_state c) (call_perfNow c) e1 s1 = (res, e2, s2)"
    by (cases "computeResult opts sel (call_state c) (call_perfNow c) e1 s1")
  have f: "snd (factorySelector opts sel c s) = write_back (getCacheKeyForParams (call_params c)) e2 s2"
    by (simp add: factorySelector_def g r)
  have k: "cache_keys s2 = cache_keys s1"
    using computeResult_frame(1)[OF r] by (simp add: cache_keys_def)
  show "cache_keys (snd (factorySelector opts sel c s))
           = cache_keys (snd (getOrCreateCacheEntry opts (call_params c) (call_now c) s))"
    by (simp add: f g k write_back_frame)
  show "keyUsage (snd (factorySelector opts sel c s))
           = keyUsage (snd (getOrCreateCacheEntry opts (call_params c) (call_now c) s))"
    by (simp add: f g write_back_frame computeResult_frame(2)[OF r])
  show "totalHits (snd (factorySelector opts sel c s))
           = totalHits (snd (getOrCreateCacheEntry opts (call_params c) (call_now c) s))"
    by (simp add: f g write_back_frame computeResult_frame(3)[OF r])
  show "totalMisses (snd (factorySelector opts sel c s))
           = totalMisses (snd (getOrCreateCacheEntry opts (call_params c) (call_now c) s))"
    by (simp add: f g write_back_frame computeResult_frame(4)[OF r])
qed

subsection \<open>Keys and LRU order after a lookup\<close>

lemma inserted_keys:
  shows "cache_keys (inserted opts params now s)
           = removeAll (getCacheKeyForParams params) (cache_keys s) @ [getCacheKeyForParams params]"
    and "keyUsage (inserted opts params now s)
           = remove1 (getCacheKeyForParams params) (keyUsage s) @ [getCacheKeyForParams params]"
  by (simp_all add: inserted_def cache_keys_def update_keys delete_keys)

lemma evict_oldest_keys:
  assumes "keyUsage s = k # rest" and "k \<noteq> []"
  shows "cache_keys (evict_oldest s) = removeAll k (cache_keys s)"
    and "keyUsage (evict_oldest s) = rest"
  using assms by (simp_all add: evict_oldest_def cache_keys_def delete_keys)

lemma evict_oldest_counters:
  "totalHits (evict_oldest s) = totalHits s" "totalMisses (evict_oldest s) = totalMisses s"
  by (simp_all add: evict_oldest_def split: list.splits)

lemma store_inv_inserted:
  assumes "store_inv s"
  shows "store_inv (inserted opts params now s)"
proof -
  let ?k = "getCacheKeyForParams params"
  have d: "distinct (cache_keys s)" "distinct (keyUsage s)"
    and e: "set (keyUsage s) = set (cache_keys s)" and n: "[] \<notin> set (keyUsage s)"
    using assms by (auto simp: store_inv_def)
  have r: "remove1 ?k (keyUsage s) = removeAll ?k (keyUsage s)"
    using d(2) by (simp add: distinct_remove1_removeAll)
  show ?thesis
    unfolding store_inv_def inserted_keys r
    using d e n getCacheKeyForParams_nonempty[of params]
    by (auto simp: distinct_removeAll)
qed

lemma store_inv_evict_oldest:
  assumes "store_inv s"
  shows "store_inv (evict_oldest s)"
proof (cases "keyUsage s")
  case Nil
  then show ?thesis using assms by (simp add: evict_oldest_def)
next
  case (Cons k rest)
  have d: "distinct (cache_keys s)" "distinct (keyUsage s)"
    and e: "set (keyUsage s) = set (cache_keys s)" and n: "[] \<notin> set (keyUsage s)"
    using assms by (auto simp: store_inv_def)
  from n Cons have k: "k \<noteq> []" by auto
  show ?thesis
    unfolding store_inv_def evict_oldest_keys[OF Cons k]
    using d e n Cons by (auto simp: distinct_removeAll)
qed

lemma store_inv_hit:
  assumes "store_inv s" and "map_of (selectorCache s) k = Some e" and "k \<noteq> []"
  shows "store_inv (s\<lparr>selectorCache := AList.update k e' (selectorCache s),
                      keyUsage := remove1 k (keyUsage s) @ [k],
                      totalHits := totalHits s + 1\<rparr>)"
proof -
  have d: "distinct (cache_keys s)" "distinct (keyUsage s)"
    and eq: "set (keyUsage s) = set (cache_keys s)" and n: "[] \<notin> set (keyUsage s)"
    using assms(1) by (auto simp: store_inv_def)
  have mem: "k \<in> set (cache_keys s)"
    using assms(2) by (auto simp: cache_keys_def dest: map_of_SomeD intro: rev_image_eqI)
  have r: "remove1 k (keyUsage s) = removeAll k (keyUsage s)"
    using d(2) by (simp add: distinct_remove1_removeAll)
  show ?thesis
    unfolding store_inv_def
    using d eq n mem assms(3)
    by (auto simp: cache_keys_def update_keys r distinct_removeAll)
qed

lemma store_inv_getOrCreateCacheEntry:
  assumes "store_inv s"
  shows "store_inv (snd (getOrCreateCacheEntry opts params now s))"
proof (cases "case map_of (selectorCache s) (getCacheKeyForParams params) of
                None \<Rightarrow> True | Some e \<Rightarrow> is_expired opts now e")
  case True
  show ?thesis
    unfolding getOrCreateCacheEntry_miss[OF True]
    using store_inv_inserted[OF assms] store_inv_evict_oldest by auto
next
  case False
  then obtain e where e: "map_of (selectorCache s) (getCacheKeyForParams params) = Some e"
    and ne: "\<not> is_expired opts now e"
    by (auto split: option.splits)
  show ?thesis
    unfolding getOrCreateCacheEntry_hit[OF e ne]
    using store_inv_hit[OF assms e getCacheKeyForParams_nonempty] by simp
qed

lemma store_inv_factorySelector:
  assumes "store_inv s"
  shows "store_inv (snd (factorySelector opts sel c s))"
  using store_inv_getOrCreateCacheEntry[OF assms, of opts "call_params c" "call_now c"]
  unfolding store_inv_def factorySelector_frame by blast

lemma store_inv_create: "store_inv createParameterizedSelector"
  by (simp add: store_inv_def createParameterizedSelector_def cache_keys_def)

lemma store_inv_run_calls:
  "store_inv s \<Longrightarrow> store_inv (run_calls opts sel calls s)"
  by (induction calls arbitrary: s) (auto intro: store_inv_factorySelector)

subsection \<open>The capacity ceiling\<close>

lemma length_cache_keys: "length (cache_keys s) = length (selectorCache s)"
  by (simp add: cache_keys_def)

lemma length_removeAll_distinct:
  "distinct xs \<Longrightarrow> x \<in> set xs \<Longrightarrow> Suc (length (removeAll x xs)) = length xs"
  by (induction xs) auto

lemma length_inserted:
  assumes "store_inv s"
  shows "length (selectorCache (inserted opts params now s))
           = (if getCacheKeyForParams params \<in> set (cache_keys s)
              then length (selectorCache s) else Suc (length (selectorCache s)))"
proof -
  have d: "distinct (cache_keys s)" using assms by (simp add: store_inv_def)
  show ?thesis
    unfolding length_cache_keys[symmetric] inserted_keys
    using length_removeAll_distinct[OF d] by auto
qed

lemma evict_oldest_removes_head:
  assumes "store_inv s" and "keyUsage s \<noteq> []"
  shows "cache_keys (evict_oldest s) = removeAll (hd (keyUsage s)) (cache_keys s)"
    and "Suc (length (selectorCache (evict_oldest s))) = length (selectorCache s)"
    and "set (cache_keys (evict_oldest s)) = set (cache_keys s) - {hd (keyUsage s)}"
    and "hd (keyUsage s) \<in> set (cache_keys s)"
proof -
  obtain k rest where c: "keyUsage s = k # rest" using assms(2) by (cases "keyUsage s") auto
  have d: "distinct (cache_keys s)" and e: "set (keyUsage s) = set (cache_keys s)"
    and n: "[] \<notin> set (keyUsage s)"
    using assms(1) by (auto simp: store_inv_def)
  from n c have k: "k \<noteq> []" by auto
  from e c show m: "hd (keyUsage s) \<in> set (cache_keys s)" by auto
  show r: "cache_keys (evict_oldest s) = removeAll (hd (keyUsage s)) (cache_keys s)"
    using evict_oldest_keys(1)[OF c k] c by simp
  show "Suc (length (selectorCache (evict_oldest s))) = length (selectorCache s)"
    unfolding length_cache_keys[symmetric] r using length_removeAll_distinct[OF d m] .
  show "set (cache_keys (evict_oldest s)) = set (cache_keys s) - {hd (keyUsage s)}"
    unfolding r by simp
qed

lemma inserted_usage_nonempty: "keyUsage (inserted opts params now s) \<noteq> []"
  by (simp add: inserted_keys)

lemma capacity_getOrCreateCacheEntry:
  assumes inv: "store_inv s" and m: "0 \<le> maxSize opts"
    and cap: "int (length (selectorCache s)) \<le> maxSize opts"
  shows "int (length (selectorCache (snd (getOrCreateCacheEntry opts params now s)))) \<le> maxSize opts"
proof (cases "case map_of (selectorCache s) (getCacheKeyForParams params) of
                None \<Rightarrow> True | Some e \<Rightarrow> is_expired opts now e")
  case True
  let ?i = "inserted opts params now s"
  have li: "length (selectorCache ?i) \<le> Suc (length (selectorCache s))"
    using length_inserted[OF inv, of opts params now] by simp
  have "Suc (length (selectorCache (evict_oldest ?i))) = length (selectorCache ?i)"
    using evict_oldest_removes_head(2)[OF store_inv_inserted[OF inv] inserted_usage_nonempty] .
  with li cap show ?thesis
    unfolding getOrCreateCacheEntry_miss[OF True] by auto
next
  case False
  then obtain e where e: "map_of (selectorCache s) (getCacheKeyForParams params) = Some e"
    and ne: "\<not> is_expired opts now e"
    by (auto split: option.splits)
  have "getCacheKeyForParams params \<in> fst ` set (selectorCache s)"
    using e by (auto dest: map_of_SomeD intro: rev_image_eqI)
  then have "length (AList.update (getCacheKeyForParams params) (e\<lparr>lastUsed := now, hits := hits e + 1\<rparr>) (selectorCache s))
           = length (selectorCache s)"
    using arg_cong[OF update_keys, of length "getCacheKeyForParams params" _ "selectorCache s"]
    by simp
  with cap show ?thesis
    unfolding getOrCreateCacheEntry_hit[OF e ne] by simp
qed

lemma capacity_factorySelector:
  assumes "store_inv s" and "0 \<le> maxSize opts"
    and "int (length (selectorCache s)) \<le> maxSize opts"
  shows "int (length (selectorCache (snd (factorySelector opts sel c s)))) \<le> maxSize opts"
  using capacity_getOrCreateCacheEntry[OF assms, of "call_params c" "call_now c"]
  unfolding length_cache_keys[symmetric] factorySelector_frame .

lemma capacity_run_calls:
  assumes "0 \<le> maxSize opts"
  shows "store_inv s \<Longrightarrow> int (length (selectorCache s)) \<le> maxSize opts
         \<Longrightarrow> int (length (selectorCache (run_calls opts sel calls s))) \<le> maxSize opts"
proof (induction calls arbitrary: s)
  case Nil
  then show ?case by simp
next
  case (Cons c cs)
  show ?case
    using Cons.IH[OF store_inv_factorySelector[OF Cons.prems(1)]
                     capacity_factorySelector[OF Cons.prems(1) assms Cons.prems(2)]]
    by simp
qed

lemma overflow_evicts_one:
  assumes inv: "store_inv s"
    and absent: "getCacheKeyForParams (call_params c) \<notin> set (cache_keys s)"
    and over: "maxSize opts < int (length (selectorCache s)) + 1"
  defines "victim \<equiv> (if keyUsage s = [] then getCacheKeyForParams (call_params c) else hd (keyUsage s))"
  shows "length (selectorCache (snd (factorySelector opts sel c s))) = length (selectorCache s)"
    and "set (cache_keys (snd (factorySelector opts sel c s)))
           = insert (getCacheKeyForParams (call_params c)) (set (cache_keys s)) - {victim}"
    and "victim \<in> insert (getCacheKeyForParams (call_params c)) (set (cache_keys s))"
proof -
  let ?k = "getCacheKeyForParams (call_params c)"
  let ?i = "inserted opts (call_params c) (call_now c) s"
  have none: "map_of (selectorCache s) ?k = None"
    using absent by (simp add: map_of_eq_None_iff cache_keys_def)
  then have miss: "case map_of (selectorCache s) ?k of None \<Rightarrow> True | Some e \<Rightarrow> is_expired opts (call_now c) e"
    by simp
  have li: "length (selectorCache ?i) = Suc (length (selectorCache s))"
    using length_inserted[OF inv, of opts "call_params c" "call_now c"] absent by simp
  have g: "snd (getOrCreateCacheEntry opts (call_params c) (call_now c) s) = evict_oldest ?i"
    unfolding getOrCreateCacheEntry_miss[OF miss] using li over by simp
  have e: "set (keyUsage s) = set (cache_keys s)" using inv by (simp add: store_inv_def)
  have u: "keyUsage ?i = keyUsage s @ [?k]"
    using absent e by (simp add: inserted_keys remove1_idem)
  have h: "hd (keyUsage ?i) = victim"
    using u by (simp add: victim_def hd_append)
  have ki: "set (cache_keys ?i) = insert ?k (set (cache_keys s))"
    by (auto simp: inserted_keys)
  note ev = evict_oldest_removes_head[OF store_inv_inserted[OF inv] inserted_usage_nonempty,
      of opts "call_params c" "call_now c"]
  show "length (selectorCache (snd (factorySelector opts sel c s))) = length (selectorCache s)"
    using ev(2) li
    unfolding length_cache_keys[symmetric] factorySelector_frame g by simp
  show "set (cache_keys (snd (factorySelector opts sel c s))) = insert ?k (set (cache_keys s)) - {victim}"
    unfolding factorySelector_frame g ev(3) h ki ..
  show "victim \<in> insert ?k (set (cache_keys s))"
    using ev(4) unfolding h ki .
qed

text \<open>
  Claim C1. For a configuration with \<open>0 \<le> maxSize\<close> and every finite sequence of calls
  on a new factory instance, \<^verbatim>\<open>getStats().cacheSize\<close> is at most \<open>maxSize\<close> after the
  last call (hence after each call). A further call whose key is absent and whose insert
  would exceed \<open>maxSize\<close> leaves the cache size unchanged: the keys afterwards are the
  old keys and the new key, less exactly one of them, the head of the LRU order.
\<close>

theorem capacity_invariant:
  fixes opts :: "'r options" and sel :: "'st \<Rightarrow> jsval list \<Rightarrow> 'e + 'r"
    and calls :: "'st call list" and c :: "'st call"
  assumes "0 \<le> maxSize opts"
  defines "s \<equiv> run_calls opts sel calls createParameterizedSelector"
  defines "s' \<equiv> snd (factorySelector opts sel c s)"
  defines "victim \<equiv> (if keyUsage s = [] then getCacheKeyForParams (call_params c)
                       else hd (keyUsage s))"
  shows "int (cacheSize (getStats opts now s)) \<le> maxSize opts
       \<and> (getCacheKeyForParams (call_params c) \<notin> set (cache_keys s)
            \<and> maxSize opts < int (cacheSize (getStats opts now s)) + 1
          \<longrightarrow> cacheSize (getStats opts now s') = cacheSize (getStats opts now s)
              \<and> victim \<in> insert (getCacheKeyForParams (call_params c)) (set (cache_keys s))
              \<and> set (cache_keys s')
                  = insert (getCacheKeyForParams (call_params c)) (set (cache_keys s)) - {victim})"
proof -
  have inv: "store_inv s"
    unfolding s_def by (rule store_inv_run_calls[OF store_inv_create])
  have "int (length (selectorCache s)) \<le> maxSize opts"
    unfolding s_def
    by (rule capacity_run_calls[OF assms(1) store_inv_create])
       (simp add: createParameterizedSelector_def assms(1))
  then have cap: "int (cacheSize (getStats opts now s)) \<le> maxSize opts"
    by (simp add: getStats_def)
  have step: "cacheSize (getStats opts now s') = cacheSize (getStats opts now s)
              \<and> victim \<in> insert (getCacheKeyForParams (call_params c)) (set (cache_keys s))
              \<and> set (cache_keys s')
                  = insert (getCacheKeyForParams (call_params c)) (set (cache_keys s)) - {victim}"
    if a: "getCacheKeyForParams (call_params c) \<notin> set (cache_keys s)"
      and o: "maxSize opts < int (cacheSize (getStats opts now s)) + 1"
  proof -
    from o have o': "maxSize opts < int (length (selectorCache s)) + 1"
      by (simp add: getStats_def)
    note ov = overflow_evicts_one(1)[OF inv a o', of sel]
      overflow_evicts_one(2)[OF inv a o', of sel] overflow_evicts_one(3)[OF inv a o']
    show ?thesis
      using ov unfolding s'_def victim_def by (simp add: getStats_def)
  qed
  from cap step show ?thesis by blast
qed

theorem capacity_invariant_witness:
  "0 \<le> maxSize (DEFAULT_OPTIONS\<lparr>maxSize := 2\<rparr> :: nat options)
   \<and> cacheSize (getStats (DEFAULT_OPTIONS\<lparr>maxSize := 2\<rparr>) 9
        (run_calls (DEFAULT_OPTIONS\<lparr>maxSize := 2\<rparr>) (\<lambda>st ps. Inr (st + length ps) :: unit + nat)
           [call_at 0 [JStr ''a''] 1, call_at 0 [JStr ''b''] 2, call_at 0 [JStr ''c''] 3,
            call_at 0 [JStr ''b''] 4]
           createParameterizedSelector)) = 2
   \<and> set (cache_keys (snd (factorySelector (DEFAULT_OPTIONS\<lparr>maxSize := 2\<rparr>)
             (\<lambda>st ps. Inr (st + length ps) :: unit + nat) (call_at 0 [JStr ''d''] 5)
             (run_calls (DEFAULT_OPTIONS\<lparr>maxSize := 2\<rparr>) (\<lambda>st ps. Inr (st + length ps) :: unit + nat)
               [call_at 0 [JStr ''a''] 1, call_at 0 [JStr ''b''] 2, call_at 0 [JStr ''c''] 3,
                call_at 0 [JStr ''b''] 4]
               createParameterizedSelector))))
       = {getCacheKeyForParams [JStr ''b''], getCacheKeyForParams [JStr ''d'']}"
proof -
  let ?o = "DEFAULT_OPTIONS\<lparr>maxSize := 2\<rparr> :: nat options"
  let ?sel = "\<lambda>st ps. Inr (st + length ps) :: unit + nat"
  let ?s = "run_calls ?o ?sel
              [call_at 0 [JStr ''a''] 1, call_at 0 [JStr ''b''] 2, call_at 0 [JStr ''c''] 3,
               call_at 0 [JStr ''b''] 4] createParameterizedSelector"
  have h: "0 \<le> maxSize ?o" by (simp add: DEFAULT_OPTIONS_def)
  have keys: "cache_keys ?s = [getCacheKeyForParams [JStr ''b''], getCacheKeyForParams [JStr ''c'']]"
    by code_simp
  have usage: "keyUsage ?s = [getCacheKeyForParams [JStr ''c''], getCacheKeyForParams [JStr ''b'']]"
    by code_simp
  have size: "cacheSize (getStats ?o 9 ?s) = 2"
    using keys by (simp add: getStats_def cache_keys_def flip: length_map[of fst])
  have kd: "getCacheKeyForParams [JStr ''d''] \<noteq> getCacheKeyForParams [JStr ''b'']"
    "getCacheKeyForParams [JStr ''d''] \<noteq> getCacheKeyForParams [JStr ''c'']"
    "getCacheKeyForParams [JStr ''b''] \<noteq> getCacheKeyForParams [JStr ''c'']"
    by code_simp+
  have absent: "getCacheKeyForParams (call_params (call_at (0::nat) [JStr ''d''] 5)) \<notin> set (cache_keys ?s)"
    unfolding keys using kd by (simp add: call_at_def)
  have over: "maxSize ?o < int (cacheSize (getStats ?o 9 ?s)) + 1"
    unfolding size by (simp add: DEFAULT_OPTIONS_def)
  from capacity_invariant[where opts = ?o and sel = ?sel and now = 9
        and c = "call_at 0 [JStr ''d''] 5"
        and calls = "[call_at 0 [JStr ''a''] 1, call_at 0 [JStr ''b''] 2, call_at 0 [JStr ''c''] 3,
               call_at 0 [JStr ''b''] 4]", OF h] absent over
  have "set (cache_keys (snd (factorySelector ?o ?sel (call_at 0 [JStr ''d''] 5) ?s)))
          = insert (getCacheKeyForParams (call_params (call_at (0::nat) [JStr ''d''] 5))) (set (cache_keys ?s))
            - {if keyUsage ?s = [] then getCacheKeyForParams (call_params (call_at (0::nat) [JStr ''d''] 5))
               else hd (keyUsage ?s)}"
    by blast
  then have "set (cache_keys (snd (factorySelector ?o ?sel (call_at 0 [JStr ''d''] 5) ?s)))
          = {getCacheKeyForParams [JStr ''b''], getCacheKeyForParams [JStr ''d'']}"
    unfolding keys usage using kd by (auto simp: call_at_def)
  with h size show ?thesis by blast
qed

subsection \<open>Hits, misses and the entry of the call\<close>

lemma live_entry_lookup:
  assumes "live_entry opts now s (getCacheKeyForParams params)"
  obtains e where "map_of (selectorCache s) (getCacheKeyForParams params) = Some e"
    and "\<not> is_expired opts now e"
    and "getOrCreateCacheEntry opts params now s =
    (e\<lparr>lastUsed := now, hits := hits e + 1\<rparr>,
     s\<lparr>selectorCache := AList.update (getCacheKeyForParams params) (e\<lparr>lastUsed := now, hits := hits e + 1\<rparr>) (selectorCache s),
       keyUsage := remove1 (getCacheKeyForParams params) (keyUsage s) @ [getCacheKeyForParams params],
       totalHits := totalHits s + 1\<rparr>)"
proof -
  from assms obtain e where e: "map_of (selectorCache s) (getCacheKeyForParams params) = Some e"
    and ne: "\<not> is_expired opts now e"
    by (auto simp: live_entry_def split: option.splits)
  from that[OF e ne getOrCreateCacheEntry_hit[OF e ne]] show thesis .
qed

lemma dead_entry_lookup:
  assumes "\<not> live_entry opts now s (getCacheKeyForParams params)"
  shows "getOrCreateCacheEntry opts params now s =
    (fresh_entry params now,
     if int (length (selectorCache (inserted opts params now s))) > maxSize opts
     then evict_oldest (inserted opts params now s) else inserted opts params now s)"
  using assms by (intro getOrCreateCacheEntry_miss) (auto simp: live_entry_def split: option.splits)

lemma lookup_registers_hit:
  assumes "live_entry opts now s (getCacheKeyForParams params)"
  shows "registers_hit s (snd (getOrCreateCacheEntry opts params now s))"
    and "cache_keys (snd (getOrCreateCacheEntry opts params now s)) = cache_keys s"
    and "keyUsage (snd (getOrCreateCacheEntry opts params now s))
           = remove1 (getCacheKeyForParams params) (keyUsage s) @ [getCacheKeyForParams params]"
proof -
  from assms obtain e where e: "map_of (selectorCache s) (getCacheKeyForParams params) = Some e"
    and g: "getOrCreateCacheEntry opts params now s =
    (e\<lparr>lastUsed := now, hits := hits e + 1\<rparr>,
     s\<lparr>selectorCache := AList.update (getCacheKeyForParams params) (e\<lparr>lastUsed := now, hits := hits e + 1\<rparr>) (selectorCache s),
       keyUsage := remove1 (getCacheKeyForParams params) (keyUsage s) @ [getCacheKeyForParams params],
       totalHits := totalHits s + 1\<rparr>)"
    by (rule live_entry_lookup)
  have mem: "getCacheKeyForParams params \<in> fst ` set (selectorCache s)"
    using e by (auto dest: map_of_SomeD intro: rev_image_eqI)
  show "registers_hit s (snd (getOrCreateCacheEntry opts params now s))"
    by (simp add: g registers_hit_def)
  show "cache_keys (snd (getOrCreateCacheEntry opts params now s)) = cache_keys s"
    using mem by (simp add: g cache_keys_def update_keys)
  show "keyUsage (snd (getOrCreateCacheEntry opts params now s))
           = remove1 (getCacheKeyForParams params) (keyUsage s) @ [getCacheKeyForParams params]"
    by (simp add: g)
qed

lemma inserted_counters:
  "totalHits (inserted opts params now s) = totalHits s"
  "totalMisses (inserted opts params now s) = totalMisses s + 1"
  by (simp_all add: inserted_def)

lemma lookup_registers_miss:
  assumes "\<not> live_entry opts now s (getCacheKeyForParams params)"
  shows "registers_miss s (snd (getOrCreateCacheEntry opts params now s))"
  unfolding dead_entry_lookup[OF assms]
  by (simp add: registers_miss_def evict_oldest_counters inserted_counters)

lemma registers_hit_iff:
  "registers_hit s (snd (factorySelector opts sel c s))
     \<longleftrightarrow> live_entry opts (call_now c) s (getCacheKeyForParams (call_params c))"
proof (cases "live_entry opts (call_now c) s (getCacheKeyForParams (call_params c))")
  case True
  from lookup_registers_hit(1)[OF True] True show ?thesis
    by (simp add: registers_hit_def factorySelector_frame)
next
  case False
  from lookup_registers_miss[OF False] False show ?thesis
    by (simp add: registers_hit_def registers_miss_def factorySelector_frame)
qed

lemma registers_miss_iff:
  "registers_miss s (snd (factorySelector opts sel c s))
     \<longleftrightarrow> \<not> live_entry opts (call_now c) s (getCacheKeyForParams (call_params c))"
proof (cases "live_entry opts (call_now c) s (getCacheKeyForParams (call_params c))")
  case True
  from lookup_registers_hit(1)[OF True] True show ?thesis
    by (simp add: registers_hit_def registers_miss_def factorySelector_frame)
next
  case False
  from lookup_registers_miss[OF False] False show ?thesis
    by (simp add: registers_miss_def factorySelector_frame)
qed

lemma computeResult_entry:
  assumes "computeResult opts sel st p e s = (res, e', s')"
  shows "res = fst (run_memoized (equalityCheck opts) sel st (selector e))"
    and "selector e' = snd (run_memoized (equalityCheck opts) sel st (selector e))"
    and "hits e' = hits e" and "misses e' = misses e"
    and "created e' = created e" and "lastUsed e' = lastUsed e"
  using assms
  by (auto simp: computeResult_def Let_def split: prod.splits sum.splits if_splits)

lemma factorySelector_result:
  "fst (factorySelector opts sel c s)
     = fst (run_memoized (equalityCheck opts) sel (call_state c)
             (selector (fst (getOrCreateCacheEntry opts (call_params c) (call_now c) s))))"
proof -
  obtain e1 s1 where g: "getOrCreateCacheEntry opts (call_params c) (call_now c) s = (e1, s1)"
    by (cases "getOrCreateCacheEntry opts (call_params c) (call_now c) s")
  obtain res e2 s2 where
    r: "computeResult opts sel (call_state c) (call_perfNow c) e1 s1 = (res, e2, s2)"
    by (cases "computeResult opts sel (call_state c) (call_perfNow c) e1 s1")
  show ?thesis
    using computeResult_entry(1)[OF r] by (simp add: factorySelector_def g r)
qed

lemma factorySelector_entry:
  assumes g: "getOrCreateCacheEntry opts (call_params c) (call_now c) s = (e1, s1)"
    and mem: "getCacheKeyForParams (call_params c) \<in> set (cache_keys s1)"
  obtains e2 where
    "map_of (selectorCache (snd (factorySelector opts sel c s))) (getCacheKeyForParams (call_params c)) = Some e2"
    and "e2 = fst (snd (computeResult opts sel (call_state c) (call_perfNow c) e1 s1))"
    and "selector e2 = snd (run_memoized (equalityCheck opts) sel (call_state c) (selector e1))"
    and "hits e2 = hits e1" and "misses e2 = misses e1"
    and "created e2 = created e1" and "lastUsed e2 = lastUsed e1"
proof -
  obtain res e2 s2 where
    r: "computeResult opts sel (call_state c) (call_perfNow c) e1 s1 = (res, e2, s2)"
    by (cases "computeResult opts sel (call_state c) (call_perfNow c) e1 s1")
  have f: "snd (factorySelector opts sel c s) = write_back (getCacheKeyForParams (call_params c)) e2 s2"
    by (simp add: factorySelector_def g r)
  have "getCacheKeyForParams (call_params c) \<in> fst ` set (selectorCache s2)"
    using mem computeResult_frame(1)[OF r] by (simp add: cache_keys_def)
  then have m: "map_of (selectorCache (snd (factorySelector opts sel c s))) (getCacheKeyForParams (call_params c)) = Some e2"
    unfolding f by (simp add: write_back_def update_conv')
  show thesis
    using that[OF m _ computeResult_entry(2-6)[OF r]] by (simp add: r)
qed

lemma key_present_after_lookup:
  assumes inv: "store_inv s" and m: "1 \<le> maxSize opts"
  shows "getCacheKeyForParams params \<in> set (cache_keys (snd (getOrCreateCacheEntry opts params now s)))"
proof (cases "live_entry opts now s (getCacheKeyForParams params)")
  case True
  then obtain e where "map_of (selectorCache s) (getCacheKeyForParams params) = Some e"
    by (auto simp: live_entry_def split: option.splits)
  then have "getCacheKeyForParams params \<in> set (cache_keys s)"
    by (auto simp: cache_keys_def dest: map_of_SomeD intro: rev_image_eqI)
  then show ?thesis by (simp add: lookup_registers_hit(2)[OF True])
next
  case False
  let ?k = "getCacheKeyForParams params"
  let ?i = "inserted opts params now s"
  have ki: "?k \<in> set (cache_keys ?i)" by (simp add: inserted_keys)
  show ?thesis
  proof (cases "int (length (selectorCache ?i)) > maxSize opts")
    case False
    with ki show ?thesis by (simp add: dead_entry_lookup[OF \<open>\<not> live_entry opts now s ?k\<close>])
  next
    case True
    have invi: "store_inv ?i" by (rule store_inv_inserted[OF inv])
    then have d: "distinct (keyUsage ?i)" and dk: "distinct (cache_keys ?i)"
      and e: "set (keyUsage ?i) = set (cache_keys ?i)"
      by (auto simp: store_inv_def)
    have "length (keyUsage ?i) = length (cache_keys ?i)"
      using d dk e by (metis distinct_card)
    with True m have len: "2 \<le> length (keyUsage ?i)" by (simp add: length_cache_keys)
    have u: "keyUsage ?i = remove1 ?k (keyUsage s) @ [?k]" by (simp add: inserted_keys)
    from len u have ne: "remove1 ?k (keyUsage s) \<noteq> []" by auto
    then have h: "hd (keyUsage ?i) = hd (remove1 ?k (keyUsage s))" by (simp add: u)
    have "hd (remove1 ?k (keyUsage s)) \<in> set (remove1 ?k (keyUsage s))" using ne by simp
    with d u have "hd (keyUsage ?i) \<noteq> ?k" unfolding h by auto
    then have "?k \<in> set (cache_keys ?i) - {hd (keyUsage ?i)}" using ki by simp
    then have "?k \<in> set (cache_keys (evict_oldest ?i))"
      using evict_oldest_removes_head(3)[OF invi inserted_usage_nonempty] by simp
    with True show ?thesis by (simp add: dead_entry_lookup[OF \<open>\<not> live_entry opts now s ?k\<close>])
  qed
qed

subsection \<open>The memoized selector on a repeated state\<close>

lemma run_memoized_again:
  assumes "run_memoized eq sel st m = (r, m')"
  shows "fst (run_memoized eq sel st m') = r"
    and "\<And>v. r = Inr v \<Longrightarrow> run_memoized eq sel st m' = (Inr v, m')"
  using assms
  by (auto simp: run_memoized_def recompute_def Let_def split: option.splits sum.splits if_splits)


subsection \<open>Two consecutive calls with the same state and arguments\<close>

theorem memoization_expired_counterexample:
  "totalHits (snd (factorySelector (DEFAULT_OPTIONS\<lparr>expireAfter := Some 10\<rparr>) count_params
       (call_at 0 [JNum 1] 100)
       (snd (factorySelector (DEFAULT_OPTIONS\<lparr>expireAfter := Some 10\<rparr>) count_params
              (call_at 0 [JNum 1] 0) createParameterizedSelector)))) = 0
   \<and> totalMisses (snd (factorySelector (DEFAULT_OPTIONS\<lparr>expireAfter := Some 10\<rparr>) count_params
       (call_at 0 [JNum 1] 100)
       (snd (factorySelector (DEFAULT_OPTIONS\<lparr>expireAfter := Some 10\<rparr>) count_params
              (call_at 0 [JNum 1] 0) createParameterizedSelector)))) = 2"
  by code_simp

subsection \<open>Expiry\<close>

theorem expiry_zero_counterexample:
  "totalHits (snd (factorySelector (DEFAULT_OPTIONS\<lparr>expireAfter := Some 0\<rparr>) count_params
       (call_at 0 [JNum 1] 1)
       (snd (factorySelector (DEFAULT_OPTIONS\<lparr>expireAfter := Some 0\<rparr>) count_params
              (call_at 0 [JNum 1] 0) createParameterizedSelector)))) = 1
   \<and> totalMisses (snd (factorySelector (DEFAULT_OPTIONS\<lparr>expireAfter := Some 0\<rparr>) count_params
       (call_at 0 [JNum 1] 1)
       (snd (factorySelector (DEFAULT_OPTIONS\<lparr>expireAfter := Some 0\<rparr>) count_params
              (call_at 0 [JNum 1] 0) createParameterizedSelector)))) = 1"
  by code_simp

text \<open>
  Claim C4, amended. With \<^verbatim>\<open>expireAfter = T\<close> configured and \<open>T \<noteq> 0\<close>, on a factory
  instance that satisfies the store invariant with \<open>1 \<le> maxSize\<close>, for a key whose entry
  was created at \<open>t0\<close> (whatever its \<^verbatim>\<open>lastUsed\<close>): a call with that key registers as a
  miss exactly when \<open>now - t0 > T\<close> and as a hit exactly when \<open>now - t0 \<le> T\<close>. At
  \<open>t0 + T + 1\<close> it is a miss and the entry is replaced by a new one (created now, hits 0,
  misses 1); at \<open>t0 + T - 1\<close> it is a hit, the entry keeps its creation time, its
  \<^verbatim>\<open>lastUsed\<close> becomes now and its hits are incremented.
\<close>

theorem expiry_from_created:
  fixes opts :: "'r options" and sel :: "'st \<Rightarrow> jsval list \<Rightarrow> 'e + 'r"
    and s :: "('st, 'r) factory" and c :: "'st call"
  defines "key \<equiv> getCacheKeyForParams (call_params c)"
  defines "s' \<equiv> snd (factorySelector opts sel c s)"
  assumes inv: "store_inv s" and m: "1 \<le> maxSize opts"
    and T: "expireAfter opts = Some T" and T0: "T \<noteq> 0"
    and e: "map_of (selectorCache s) key = Some e"
    and t0: "created e = t0"
  shows "(registers_miss s s' \<longleftrightarrow> call_now c - t0 > T)
       \<and> (registers_hit s s' \<longleftrightarrow> call_now c - t0 \<le> T)
       \<and> (call_now c = t0 + T + 1 \<longrightarrow>
            registers_miss s s'
            \<and> (\<exists>e'. map_of (selectorCache s') key = Some e' \<and> created e' = call_now c
                    \<and> hits e' = 0 \<and> misses e' = 1))
       \<and> (call_now c = t0 + T - 1 \<longrightarrow>
            registers_hit s s'
            \<and> (\<exists>e'. map_of (selectorCache s') key = Some e' \<and> created e' = t0
                    \<and> lastUsed e' = call_now c \<and> hits e' = hits e + 1 \<and> misses e' = misses e))"
proof -
  have ex: "is_expired opts (call_now c) e \<longleftrightarrow> call_now c - t0 > T"
    using T T0 t0 by (simp add: is_expired_def)
  have live: "live_entry opts (call_now c) s key \<longleftrightarrow> call_now c - t0 \<le> T"
    using e ex by (auto simp: live_entry_def)
  have miss_iff: "registers_miss s s' \<longleftrightarrow> call_now c - t0 > T"
    unfolding s'_def registers_miss_iff using live by (auto simp: key_def)
  have hit_iff: "registers_hit s s' \<longleftrightarrow> call_now c - t0 \<le> T"
    unfolding s'_def registers_hit_iff using live by (auto simp: key_def)
  obtain e1 s1 where g: "getOrCreateCacheEntry opts (call_params c) (call_now c) s = (e1, s1)"
    by (cases "getOrCreateCacheEntry opts (call_params c) (call_now c) s")
  have pres: "getCacheKeyForParams (call_params c) \<in> set (cache_keys s1)"
    using key_present_after_lookup[OF inv m, of "call_params c" "call_now c"] by (simp add: g)
  obtain e' where e': "map_of (selectorCache s') key = Some e'"
    and f: "created e' = created e1" "hits e' = hits e1" "misses e' = misses e1"
      "lastUsed e' = lastUsed e1"
    unfolding s'_def key_def using factorySelector_entry[OF g pres, of sel] by blast
  have late: "\<exists>e'. map_of (selectorCache s') key = Some e' \<and> created e' = call_now c
                    \<and> hits e' = 0 \<and> misses e' = 1"
    if "call_now c = t0 + T + 1"
  proof -
    from that live have "\<not> live_entry opts (call_now c) s (getCacheKeyForParams (call_params c))"
      by (simp add: key_def)
    from dead_entry_lookup[OF this] g have "e1 = fresh_entry (call_params c) (call_now c)"
      by simp
    with e' f show ?thesis by (auto simp: fresh_entry_def)
  qed
  have early: "\<exists>e'. map_of (selectorCache s') key = Some e' \<and> created e' = t0
                    \<and> lastUsed e' = call_now c \<and> hits e' = hits e + 1 \<and> misses e' = misses e"
    if "call_now c = t0 + T - 1"
  proof -
    from that live have l: "live_entry opts (call_now c) s (getCacheKeyForParams (call_params c))"
      by (simp add: key_def)
    from live_entry_lookup[OF l] e g
    have "e1 = e\<lparr>lastUsed := call_now c, hits := hits e + 1\<rparr>"
      by (auto simp: key_def)
    with e' f t0 show ?thesis by auto
  qed
  from miss_iff hit_iff late early show ?thesis by auto
qed

theorem expiry_from_created_witness:
  "store_inv (snd (factorySelector (DEFAULT_OPTIONS\<lparr>expireAfter := Some 10\<rparr>) count_params
                     (call_at 0 [JNum 1] 100) createParameterizedSelector))
   \<and> expireAfter (DEFAULT_OPTIONS\<lparr>expireAfter := Some 10\<rparr> :: nat options) = Some 10
   \<and> registers_miss
        (snd (factorySelector (DEFAULT_OPTIONS\<lparr>expireAfter := Some 10\<rparr>) count_params
                     (call_at 0 [JNum 1] 100) createParameterizedSelector))
        (snd (factorySelector (DEFAULT_OPTIONS\<lparr>expireAfter := Some 10\<rparr>) count_params
               (call_at 0 [JNum 1] 111)
               (snd (factorySelector (DEFAULT_OPTIONS\<lparr>expireAfter := Some 10\<rparr>) count_params
                     (call_at 0 [JNum 1] 100) createParameterizedSelector))))
   \<and> registers_hit
        (snd (factorySelector (DEFAULT_OPTIONS\<lparr>expireAfter := Some 10\<rparr>) count_params
                     (call_at 0 [JNum 1] 100) createParameterizedSelector))
        (snd (factorySelector (DEFAULT_OPTIONS\<lparr>expireAfter := Some 10\<rparr>) count_params
               (call_at 0 [JNum 1] 109)
               (snd (factorySelector (DEFAULT_OPTIONS\<lparr>expireAfter := Some 10\<rparr>) count_params
                     (call_at 0 [JNum 1] 100) createParameterizedSelector))))"
proof -
  let ?o = "DEFAULT_OPTIONS\<lparr>expireAfter := Some 10\<rparr> :: nat options"
  let ?s = "snd (factorySelector ?o count_params (call_at 0 [JNum 1] 100) createParameterizedSelector)"
  let ?e = "\<lparr>selector = \<lparr>closed_params = [JNum 1], last_call = Some (0::nat, 1::nat),
                           recomputations = 1\<rparr>,
             lastUsed = 100, created = 100, hits = 0, misses = 1, executionTime = 0\<rparr>"
  have inv: "store_inv ?s" by (rule store_inv_factorySelector[OF store_inv_create])
  have m: "1 \<le> maxSize ?o" by (simp add: DEFAULT_OPTIONS_def)
  have T: "expireAfter ?o = Some 10" by simp
  have T0: "(10::int) \<noteq> 0" by simp
  have e1: "map_of (selectorCache ?s) (getCacheKeyForParams (call_params (call_at (0::nat) [JNum 1] 111))) = Some ?e"
    by code_simp
  have e2: "map_of (selectorCache ?s) (getCacheKeyForParams (call_params (call_at (0::nat) [JNum 1] 109))) = Some ?e"
    by code_simp
  have t0: "created ?e = 100" by simp
  have late: "call_now (call_at (0::nat) [JNum 1] 111) = 100 + 10 + 1" by (simp add: call_at_def)
  have early: "call_now (call_at (0::nat) [JNum 1] 109) = 100 + 10 - 1" by (simp add: call_at_def)
  from expiry_from_created[OF inv m T T0 e1 t0, of count_params] late
  have a: "registers_miss ?s (snd (factorySelector ?o count_params (call_at 0 [JNum 1] 111) ?s))"
    by blast
  from expiry_from_created[OF inv m T T0 e2 t0, of count_params] early
  have b: "registers_hit ?s (snd (factorySelector ?o count_params (call_at 0 [JNum 1] 109) ?s))"
    by blast
  from inv T a b show ?thesis by blast
qed

subsection \<open>A computation that throws\<close>




subsection \<open>One call, seen on the keys and the LRU order\<close>

lemma absent_not_live:
  "key \<notin> set (cache_keys s) \<Longrightarrow> \<not> live_entry opts now s key"
  by (simp add: live_entry_def map_of_eq_None_iff[THEN iffD2] cache_keys_def)

lemma present_live_without_expiry:
  assumes "expireAfter opts = None" and "key \<in> set (cache_keys s)"
  shows "live_entry opts now s key"
proof -
  from assms(2) obtain e where "map_of (selectorCache s) key = Some e"
    by (cases "map_of (selectorCache s) key")
       (auto simp: cache_keys_def map_of_eq_None_iff)
  then show ?thesis using assms(1) by (simp add: live_entry_def is_expired_def)
qed

lemma call_on_absent_key:
  fixes opts :: "'r options" and sel :: "'st \<Rightarrow> jsval list \<Rightarrow> 'e + 'r"
    and s :: "('st, 'r) factory" and c :: "'st call"
  assumes inv: "store_inv s"
    and absent: "getCacheKeyForParams (call_params c) \<notin> set (cache_keys s)"
  defines "s' \<equiv> snd (factorySelector opts sel c s)"
  shows "registers_miss s s'"
    and "\<not> maxSize opts < int (length (cache_keys s)) + 1 \<Longrightarrow>
           cache_keys s' = cache_keys s @ [getCacheKeyForParams (call_params c)]
           \<and> keyUsage s' = keyUsage s @ [getCacheKeyForParams (call_params c)]"
    and "maxSize opts < int (length (cache_keys s)) + 1 \<Longrightarrow>
           cache_keys s' = removeAll (hd (keyUsage s @ [getCacheKeyForParams (call_params c)]))
                              (cache_keys s @ [getCacheKeyForParams (call_params c)])
           \<and> keyUsage s' = tl (keyUsage s @ [getCacheKeyForParams (call_params c)])"
proof -
  let ?k = "getCacheKeyForParams (call_params c)"
  let ?i = "inserted opts (call_params c) (call_now c) s"
  have dead: "\<not> live_entry opts (call_now c) s ?k" by (rule absent_not_live[OF absent])
  show "registers_miss s s'" unfolding s'_def registers_miss_iff by (rule dead)
  have e: "set (keyUsage s) = set (cache_keys s)" using inv by (simp add: store_inv_def)
  have ki: "cache_keys ?i = cache_keys s @ [?k]" using absent by (simp add: inserted_keys)
  have ui: "keyUsage ?i = keyUsage s @ [?k]"
    using absent e by (simp add: inserted_keys remove1_idem)
  have li: "int (length (selectorCache ?i)) = int (length (cache_keys s)) + 1"
    using ki by (simp flip: length_cache_keys)
  show "cache_keys s' = cache_keys s @ [?k] \<and> keyUsage s' = keyUsage s @ [?k]"
    if "\<not> maxSize opts < int (length (cache_keys s)) + 1"
    unfolding s'_def factorySelector_frame dead_entry_lookup[OF dead]
    using that li ki ui by simp
  show "cache_keys s' = removeAll (hd (keyUsage s @ [?k])) (cache_keys s @ [?k])
           \<and> keyUsage s' = tl (keyUsage s @ [?k])"
    if over: "maxSize opts < int (length (cache_keys s)) + 1"
  proof -
    have g: "snd (getOrCreateCacheEntry opts (call_params c) (call_now c) s) = evict_oldest ?i"
      unfolding dead_entry_lookup[OF dead] using over li by simp
    obtain k rest where kr: "keyUsage ?i = k # rest"
      using inserted_usage_nonempty[of opts "call_params c" "call_now c" s]
      by (cases "keyUsage ?i") auto
    have "[] \<notin> set (keyUsage ?i)"
      using store_inv_inserted[OF inv, of opts "call_params c" "call_now c"]
      unfolding store_inv_def by blast
    with kr have k: "k \<noteq> []" by auto
    show ?thesis
      unfolding s'_def factorySelector_frame g
      using evict_oldest_keys[OF kr k] kr ki ui by simp
  qed
qed

lemma call_on_live_key:
  fixes opts :: "'r options" and sel :: "'st \<Rightarrow> jsval list \<Rightarrow> 'e + 'r"
    and s :: "('st, 'r) factory" and c :: "'st call"
  assumes "live_entry opts (call_now c) s (getCacheKeyForParams (call_params c))"
  defines "s' \<equiv> snd (factorySelector opts sel c s)"
  shows "registers_hit s s'"
    and "cache_keys s' = cache_keys s"
    and "keyUsage s' = remove1 (getCacheKeyForParams (call_params c)) (keyUsage s)
                         @ [getCacheKeyForParams (call_params c)]"
  unfolding s'_def factorySelector_frame registers_hit_iff
  using assms(1) lookup_registers_hit(2,3)[OF assms(1)] by auto

subsection \<open>Invalidation\<close>

lemma fold_remove_key_cache:
  "selectorCache (fold remove_key ks s) = filter (\<lambda>(k, e). k \<notin> set ks) (selectorCache s)"
proof (induction ks arbitrary: s)
  case Nil
  then show ?case by simp
next
  case (Cons k ks)
  have "selectorCache (fold remove_key (k # ks) s)
          = filter (\<lambda>(k', e). k' \<notin> set ks) (selectorCache (remove_key k s))"
    by (simp add: Cons.IH)
  also have "selectorCache (remove_key k s) = AList.delete k (selectorCache s)"
    by (simp add: remove_key_def)
  also have "filter (\<lambda>(k', e). k' \<notin> set ks) (AList.delete k (selectorCache s))
          = filter (\<lambda>(k', e). k' \<notin> set (k # ks)) (selectorCache s)"
    by (auto simp: AList.delete_eq intro!: filter_cong)
  finally show ?case .
qed

lemma fold_remove_key_usage:
  "distinct (keyUsage s) \<Longrightarrow>
     keyUsage (fold remove_key ks s) = filter (\<lambda>k. k \<notin> set ks) (keyUsage s)"
proof (induction ks arbitrary: s)
  case Nil
  then show ?case by simp
next
  case (Cons k ks)
  have d: "distinct (keyUsage (remove_key k s))"
    using Cons.prems by (simp add: remove_key_def)
  have "keyUsage (fold remove_key (k # ks) s)
          = filter (\<lambda>k'. k' \<notin> set ks) (keyUsage (remove_key k s))"
    using Cons.IH[OF d] by simp
  also have "keyUsage (remove_key k s) = remove1 k (keyUsage s)"
    by (simp add: remove_key_def)
  also have "filter (\<lambda>k'. k' \<notin> set ks) (remove1 k (keyUsage s))
          = filter (\<lambda>k'. k' \<notin> set (k # ks)) (keyUsage s)"
    using Cons.prems
    by (auto simp: distinct_remove1_removeAll removeAll_filter_not_eq intro!: filter_cong)
  finally show ?case .
qed

lemma fold_remove_key_counters:
  "totalHits (fold remove_key ks s) = totalHits s"
  "totalMisses (fold remove_key ks s) = totalMisses s"
  "totalExecutionTime (fold remove_key ks s) = totalExecutionTime s"
proof (induction ks arbitrary: s)
  case Nil
  {
    case 1 show ?case by simp
  next
    case 2 show ?case by simp
  next
    case 3 show ?case by simp
  }
next
  case (Cons k ks)
  {
    case 1 show ?case using Cons.IH(1)[of "remove_key k s"] by (simp add: remove_key_def)
  next
    case 2 show ?case using Cons.IH(2)[of "remove_key k s"] by (simp add: remove_key_def)
  next
    case 3 show ?case using Cons.IH(3)[of "remove_key k s"] by (simp add: remove_key_def)
  }
qed

lemma invalidateCache_with_predicate:
  assumes inv: "store_inv s"
    and r: "invalidateCache parse (Some p) s = (n, s')"
  shows "selectorCache s' = filter (\<lambda>(k, e). \<not> key_matches parse p k) (selectorCache s)"
    and "keyUsage s' = filter (\<lambda>k. \<not> key_matches parse p k) (keyUsage s)"
    and "n = Some (length (filter (key_matches parse p) (cache_keys s)))"
    and "n = Some (length (selectorCache s) - length (selectorCache s'))"
    and "store_inv s'"
proof -
  let ?ks = "filter (key_matches parse p) (map fst (selectorCache s))"
  from r have n: "n = Some (length ?ks)" and s': "s' = fold remove_key ?ks s"
    by (auto simp: invalidateCache_def Let_def)
  have d: "distinct (cache_keys s)" "distinct (keyUsage s)"
    and e: "set (keyUsage s) = set (cache_keys s)" and ne: "[] \<notin> set (keyUsage s)"
    using inv by (auto simp: store_inv_def)
  show c: "selectorCache s' = filter (\<lambda>(k, e). \<not> key_matches parse p k) (selectorCache s)"
    unfolding s' fold_remove_key_cache
    by (rule filter_cong) (auto intro: rev_image_eqI)
  show u: "keyUsage s' = filter (\<lambda>k. \<not> key_matches parse p k) (keyUsage s)"
    unfolding s' fold_remove_key_usage[OF d(2)]
    using e by (intro filter_cong) (auto simp: cache_keys_def)
  show "n = Some (length (filter (key_matches parse p) (cache_keys s)))"
    by (simp add: n cache_keys_def)
  have k': "cache_keys s' = filter (\<lambda>k. \<not> key_matches parse p k) (cache_keys s)"
    unfolding cache_keys_def c by (simp add: filter_map comp_def case_prod_unfold)
  have "length (cache_keys s) = length ?ks + length (cache_keys s')"
    unfolding k' using sum_length_filter_compl[of "key_matches parse p" "cache_keys s"]
    by (simp add: cache_keys_def)
  then show "n = Some (length (selectorCache s) - length (selectorCache s'))"
    by (simp add: n length_cache_keys)
  show "store_inv s'"
    unfolding store_inv_def k' u using d e ne by auto
qed

lemma three_numbers_cached:
  fixes sel :: "'st \<Rightarrow> jsval list \<Rightarrow> 'e + 'r"
  assumes "call_params c1 = [JNum 1]" "call_params c2 = [JNum 2]" "call_params c3 = [JNum 3]"
  defines "s \<equiv> run_calls (DEFAULT_OPTIONS :: 'r options) sel [c1, c2, c3] createParameterizedSelector"
  shows "cache_keys s = [''[1]'', ''[2]'', ''[3]'']" and "store_inv s"
proof -
  let ?o = "DEFAULT_OPTIONS :: 'r options"
  let ?s0 = "createParameterizedSelector :: ('st, 'r) factory"
  let ?s1 = "snd (factorySelector ?o sel c1 ?s0)"
  let ?s2 = "snd (factorySelector ?o sel c2 ?s1)"
  have s: "s = snd (factorySelector ?o sel c3 ?s2)" by (simp add: s_def)
  have k: "getCacheKeyForParams [JNum 1] = ''[1]''" "getCacheKeyForParams [JNum 2] = ''[2]''"
    "getCacheKeyForParams [JNum 3] = ''[3]''"
    by code_simp+
  have m: "maxSize ?o = 10" by (simp add: DEFAULT_OPTIONS_def)
  have i0: "store_inv ?s0" by (rule store_inv_create)
  have i1: "store_inv ?s1" by (rule store_inv_factorySelector[OF i0])
  have i2: "store_inv ?s2" by (rule store_inv_factorySelector[OF i1])
  show "store_inv s" unfolding s by (rule store_inv_factorySelector[OF i2])
  have k0: "cache_keys ?s0 = []" "keyUsage ?s0 = []"
    by (simp_all add: cache_keys_def createParameterizedSelector_def)
  have k1: "cache_keys ?s1 = [''[1]'']"
    using call_on_absent_key(2)[OF i0, of c1 ?o sel] by (simp add: k0 k m assms(1))
  have k2: "cache_keys ?s2 = [''[1]'', ''[2]'']"
    using call_on_absent_key(2)[OF i1, of c2 ?o sel] by (simp add: k1 k m assms(2))
  show "cache_keys s = [''[1]'', ''[2]'', ''[3]'']"
    unfolding s
    using call_on_absent_key(2)[OF i2, of c3 ?o sel] by (simp add: k2 k m assms(3))
qed

lemma map_of_filter_kept:
  "\<not> Q k \<Longrightarrow> map_of (filter (\<lambda>(k', e). \<not> Q k') xs) k = map_of xs k"
  by (induction xs) auto

text \<open>
  Claim C8. On a factory instance that satisfies the store invariant:
  \<^verbatim>\<open>invalidateCache()\<close> with no predicate empties the \<^verbatim>\<open>Map\<close> and the LRU order and
  returns nothing. With a predicate it removes, from the \<^verbatim>\<open>Map\<close> and from the LRU
  order, exactly the keys that decode to a value the predicate accepts, leaves the other
  entries as they are, in particular every key whose decoding fails, and returns the
  number of entries removed. After calls with the arguments 1, 2 and 3 on a new instance
  with the default options, invalidating with \<^verbatim>\<open>params[0] > 1\<close> returns 2 and leaves a
  cache size of 1, given that the decoder decodes the three keys as \<^verbatim>\<open>JSON.parse\<close>
  does.
\<close>

theorem invalidateCache_by_predicate:
  fixes s :: "('st, 'r) factory" and sel :: "'st \<Rightarrow> jsval list \<Rightarrow> 'e + 'r"
    and c1 c2 c3 :: "'st call" and opts :: "'r options"
  assumes inv: "store_inv s"
  shows "invalidateCache parse None s = (None, s\<lparr>selectorCache := [], keyUsage := []\<rparr>)
       \<and> (\<exists>n s'. invalidateCache parse (Some p) s = (Some n, s')
             \<and> selectorCache s' = filter (\<lambda>(k, e). \<not> key_matches parse p k) (selectorCache s)
             \<and> keyUsage s' = filter (\<lambda>k. \<not> key_matches parse p k) (keyUsage s)
             \<and> n = length (filter (key_matches parse p) (cache_keys s))
             \<and> n = cacheSize (getStats opts now s) - cacheSize (getStats opts now s')
             \<and> (\<forall>k. parse k = None \<longrightarrow> map_of (selectorCache s') k = map_of (selectorCache s) k))
       \<and> (call_params c1 = [JNum 1] \<and> call_params c2 = [JNum 2] \<and> call_params c3 = [JNum 3]
           \<and> parse ''[1]'' = Some (JArr [JNum 1]) \<and> parse ''[2]'' = Some (JArr [JNum 2])
           \<and> parse ''[3]'' = Some (JArr [JNum 3])
          \<longrightarrow> (\<exists>s'. invalidateCache parse (Some first_param_above_one)
                       (run_calls DEFAULT_OPTIONS sel [c1, c2, c3] createParameterizedSelector)
                     = (Some 2, s')
                   \<and> cacheSize (getStats (DEFAULT_OPTIONS :: 'r options) now s') = 1))"
proof -
  have none: "invalidateCache parse None s = (None, s\<lparr>selectorCache := [], keyUsage := []\<rparr>)"
    by (simp add: invalidateCache_def clearCache_def)
  obtain n0 s' where r: "invalidateCache parse (Some p) s = (n0, s')"
    by (cases "invalidateCache parse (Some p) s")
  note g = invalidateCache_with_predicate[OF inv r]
  from g(3) obtain n where n0: "n0 = Some n"
    and n: "n = length (filter (key_matches parse p) (cache_keys s))"
    by simp
  have diff: "n = cacheSize (getStats opts now s) - cacheSize (getStats opts now s')"
    using g(4) n0 by (simp add: getStats_def)
  have skip: "map_of (selectorCache s') k = map_of (selectorCache s) k" if "parse k = None" for k
  proof -
    from that have "\<not> key_matches parse p k" by (simp add: key_matches_def)
    then show ?thesis unfolding g(1) by (rule map_of_filter_kept)
  qed
  have general: "\<exists>n s'. invalidateCache parse (Some p) s = (Some n, s')
             \<and> selectorCache s' = filter (\<lambda>(k, e). \<not> key_matches parse p k) (selectorCache s)
             \<and> keyUsage s' = filter (\<lambda>k. \<not> key_matches parse p k) (keyUsage s)
             \<and> n = length (filter (key_matches parse p) (cache_keys s))
             \<and> n = cacheSize (getStats opts now s) - cacheSize (getStats opts now s')
             \<and> (\<forall>k. parse k = None \<longrightarrow> map_of (selectorCache s') k = map_of (selectorCache s) k)"
    using r n0 g(1,2) n diff skip by blast
  have example: "\<exists>s'. invalidateCache parse (Some first_param_above_one)
                       (run_calls DEFAULT_OPTIONS sel [c1, c2, c3] createParameterizedSelector)
                     = (Some 2, s')
                   \<and> cacheSize (getStats (DEFAULT_OPTIONS :: 'r options) now s') = 1"
    if cp: "call_params c1 = [JNum 1]" "call_params c2 = [JNum 2]" "call_params c3 = [JNum 3]"
      and dec: "parse ''[1]'' = Some (JArr [JNum 1])" "parse ''[2]'' = Some (JArr [JNum 2])"
        "parse ''[3]'' = Some (JArr [JNum 3])"
  proof -
    let ?t = "run_calls (DEFAULT_OPTIONS :: 'r options) sel [c1, c2, c3] createParameterizedSelector"
    have keys: "cache_keys ?t = [''[1]'', ''[2]'', ''[3]'']" and invt: "store_inv ?t"
      using three_numbers_cached[OF cp, of sel] by blast+
    have km: "\<not> key_matches parse first_param_above_one ''[1]''"
      "key_matches parse first_param_above_one ''[2]''"
      "key_matches parse first_param_above_one ''[3]''"
      by (simp_all add: key_matches_def dec first_param_above_one_def)
    obtain m t' where rt: "invalidateCache parse (Some first_param_above_one) ?t = (m, t')"
      by (cases "invalidateCache parse (Some first_param_above_one) ?t")
    note h = invalidateCache_with_predicate[OF invt rt]
    have m: "m = Some 2" using h(3) km unfolding keys by simp
    have "length (cache_keys ?t) = 3" unfolding keys by simp
    then have l3: "length (selectorCache ?t) = 3" unfolding length_cache_keys .
    from h(4) have "Some (2::nat) = Some (3 - length (selectorCache t'))"
      unfolding m l3 .
    moreover have "length (selectorCache t') \<le> 3"
      unfolding h(1) using length_filter_le[of _ "selectorCache ?t"] unfolding l3 .
    ultimately have "length (selectorCache t') = 1" by simp
    then have "cacheSize (getStats (DEFAULT_OPTIONS :: 'r options) now t') = 1"
      by (simp add: getStats_def)
    with rt m show ?thesis by blast
  qed
  from none general example show ?thesis by blast
qed

theorem invalidateCache_by_predicate_witness:
  "store_inv (run_calls DEFAULT_OPTIONS count_params
                [call_at 0 [JNum 1] 0, call_at 0 [JNum 2] 1, call_at 0 [JNum 3] 2]
                createParameterizedSelector)
   \<and> decode_small_tuple ''[1]'' = Some (JArr [JNum 1])
   \<and> decode_small_tuple ''[2]'' = Some (JArr [JNum 2])
   \<and> decode_small_tuple ''[3]'' = Some (JArr [JNum 3])
   \<and> (\<exists>s'. invalidateCache decode_small_tuple (Some first_param_above_one)
               (run_calls DEFAULT_OPTIONS count_params
                 [call_at 0 [JNum 1] 0, call_at 0 [JNum 2] 1, call_at 0 [JNum 3] 2]
                 createParameterizedSelector) = (Some 2, s')
            \<and> cacheSize (getStats (DEFAULT_OPTIONS :: nat options) 3 s') = 1)"
proof -
  let ?s = "run_calls DEFAULT_OPTIONS count_params
                [call_at 0 [JNum 1] 0, call_at 0 [JNum 2] 1, call_at 0 [JNum 3] 2]
                createParameterizedSelector"
  have inv: "store_inv ?s" by (rule store_inv_run_calls[OF store_inv_create])
  have cp: "call_params (call_at (0::nat) [JNum 1] 0) = [JNum 1]"
    "call_params (call_at (0::nat) [JNum 2] 1) = [JNum 2]"
    "call_params (call_at (0::nat) [JNum 3] 2) = [JNum 3]"
    by (simp_all add: call_at_def)
  have dec: "decode_small_tuple ''[1]'' = Some (JArr [JNum 1])"
    "decode_small_tuple ''[2]'' = Some (JArr [JNum 2])"
    "decode_small_tuple ''[3]'' = Some (JArr [JNum 3])"
    by (simp_all add: decode_small_tuple_def)
  from invalidateCache_by_predicate[OF inv, where parse = decode_small_tuple
      and sel = count_params and ?c1.0 = "call_at 0 [JNum 1] 0" and ?c2.0 = "call_at 0 [JNum 2] 1"
      and ?c3.0 = "call_at 0 [JNum 3] 2" and now = 3] cp dec
  have "\<exists>s'. invalidateCache decode_small_tuple (Some first_param_above_one) ?s = (Some 2, s')
            \<and> cacheSize (getStats (DEFAULT_OPTIONS :: nat options) 3 s') = 1"
    by blast
  with inv dec show ?thesis by blast
qed

subsection \<open>Performance tracking\<close>

text \<open>
  Claim C9 says that with \<^verbatim>\<open>trackPerformance\<close> each invocation adds its own duration
  to the entry's \<^verbatim>\<open>executionTime\<close> and to \<^verbatim>\<open>totalExecutionTime\<close>. The code adds the
  reading of \<^verbatim>\<open>performance.now()\<close> minus the entry's accumulated
  \<^verbatim>\<open>executionTime\<close>. Two calls on a new instance with tracking enabled: the first
  computes from clock reading 1000 to 1005 (duration 5), the second, a hit, from 1998 to
  2000 (duration 2). The durations sum to 7; the entry's \<^verbatim>\<open>executionTime\<close> and
  \<^verbatim>\<open>totalExecutionTime\<close> are 1005 after the first call and 2000 after the second.
\<close>

theorem trackPerformance_adds_clock_reading:
  "duration \<lparr>call_state = 0::nat, call_params = [JNum 1], call_now = 0,
             call_perfStart = 1000, call_perfNow = 1005\<rparr> = 5
   \<and> duration \<lparr>call_state = 0::nat, call_params = [JNum 1], call_now = 1,
               call_perfStart = 1998, call_perfNow = 2000\<rparr> = 2
   \<and> totalExecutionTime
        (run_calls (DEFAULT_OPTIONS\<lparr>trackPerformance := True\<rparr>) count_params
          [\<lparr>call_state = 0, call_params = [JNum 1], call_now = 0,
            call_perfStart = 1000, call_perfNow = 1005\<rparr>]
          createParameterizedSelector) = 1005
   \<and> map (\<lambda>(key, e). executionTime e) (selectorCache
        (run_calls (DEFAULT_OPTIONS\<lparr>trackPerformance := True\<rparr>) count_params
          [\<lparr>call_state = 0, call_params = [JNum 1], call_now = 0,
            call_perfStart = 1000, call_perfNow = 1005\<rparr>]
          createParameterizedSelector)) = [1005]
   \<and> totalExecutionTime
        (run_calls (DEFAULT_OPTIONS\<lparr>trackPerformance := True\<rparr>) count_params
          [\<lparr>call_state = 0, call_params = [JNum 1], call_now = 0,
            call_perfStart = 1000, call_perfNow = 1005\<rparr>,
           \<lparr>call_state = 0, call_params = [JNum 1], call_now = 1,
            call_perfStart = 1998, call_perfNow = 2000\<rparr>]
          createParameterizedSelector) = 2000
   \<and> map (\<lambda>(key, e). executionTime e) (selectorCache
        (run_calls (DEFAULT_OPTIONS\<lparr>trackPerformance := True\<rparr>) count_params
          [\<lparr>call_state = 0, call_params = [JNum 1], call_now = 0,
            call_perfStart = 1000, call_perfNow = 1005\<rparr>,
           \<lparr>call_state = 0, call_params = [JNum 1], call_now = 1,
            call_perfStart = 1998, call_perfNow = 2000\<rparr>]
          createParameterizedSelector)) = [2000]"
  by code_simp

subsection \<open>Texts of numbers and strings are told apart\<close>

lemma digit_char_is_digit: "d < 10 \<Longrightarrow> is_digit (digit_char d)"
  unfolding is_digit_def digit_char_def
  by (rule nth_mem) simp

lemma digit_char_inj: "d < 10 \<Longrightarrow> d' < 10 \<Longrightarrow> digit_char d = digit_char d' \<Longrightarrow> d = d'"
proof -
  have dist: "distinct ''0123456789''" by simp
  show "d < 10 \<Longrightarrow> d' < 10 \<Longrightarrow> digit_char d = digit_char d' \<Longrightarrow> d = d'"
    unfolding digit_char_def using nth_eq_iff_index_eq[OF dist, of d d'] by simp
qed

lemma show_nat_digits: "c \<in> set (show_nat n) \<Longrightarrow> is_digit c"
proof (induction n arbitrary: c rule: show_nat.induct)
  case (1 n)
  show ?case
  proof (cases "n < 10")
    case True
    with "1.prems" show ?thesis
      by (subst (asm) show_nat.simps) (simp add: digit_char_is_digit)
  next
    case False
    with "1.prems" have "c \<in> set (show_nat (n div 10)) \<or> c = digit_char (n mod 10)"
      by (subst (asm) show_nat.simps) auto
    then show ?thesis using "1.IH"[OF False] by (auto intro: digit_char_is_digit)
  qed
qed

lemma show_nat_long: "\<not> n < 10 \<Longrightarrow> 2 \<le> length (show_nat n)"
proof -
  assume a: "\<not> n < 10"
  have "show_nat (n div 10) \<noteq> []" by (rule show_nat_nonempty)
  then have "1 \<le> length (show_nat (n div 10))" by (cases "show_nat (n div 10)") auto
  then show ?thesis using a by (subst show_nat.simps) simp
qed

lemma show_nat_inj: "show_nat n = show_nat m \<Longrightarrow> n = m"
proof (induction n arbitrary: m rule: show_nat.induct)
  case (1 n)
  show ?case
  proof (cases "n < 10")
    case True
    then have n: "show_nat n = [digit_char n]" by (subst show_nat.simps) simp
    have "m < 10"
    proof (rule ccontr)
      assume "\<not> m < 10"
      from show_nat_long[OF this] have "2 \<le> length (show_nat m)" .
      moreover have "length (show_nat m) = 1" using "1.prems" n by (metis length_Cons list.size(3) One_nat_def)
      ultimately show False by simp
    qed
    then have "show_nat m = [digit_char m]" by (subst show_nat.simps) simp
    with n "1.prems" have "digit_char n = digit_char m" by simp
    with True \<open>m < 10\<close> show ?thesis by (intro digit_char_inj)
  next
    case False
    then have n: "show_nat n = show_nat (n div 10) @ [digit_char (n mod 10)]"
      by (subst show_nat.simps) simp
    have "\<not> m < 10"
    proof
      assume "m < 10"
      then have "show_nat m = [digit_char m]" by (subst show_nat.simps) simp
      then have "length (show_nat n) = 1" using "1.prems" by simp
      with show_nat_long[OF False] show False by simp
    qed
    then have m: "show_nat m = show_nat (m div 10) @ [digit_char (m mod 10)]"
      by (subst show_nat.simps) simp
    from n m "1.prems" have a: "show_nat (n div 10) = show_nat (m div 10)"
      and b: "digit_char (n mod 10) = digit_char (m mod 10)"
      by auto
    from "1.IH"[OF False a] have "n div 10 = m div 10" .
    moreover from b have "n mod 10 = m mod 10" by (intro digit_char_inj) simp_all
    ultimately show ?thesis by (metis div_mult_mod_eq)
  qed
qed

lemma not_digit_delimited: "delimited r \<Longrightarrow> r \<noteq> [] \<and> \<not> is_digit (hd r)"
  by (auto simp: delimited_def is_digit_def)

lemma takeWhile_digits:
  assumes "delimited r"
  shows "takeWhile is_digit (show_nat n @ r) = show_nat n"
proof -
  have "takeWhile is_digit r = []"
    using not_digit_delimited[OF assms] by (cases r) auto
  moreover have "\<forall>c \<in> set (show_nat n). is_digit c" using show_nat_digits by blast
  ultimately show ?thesis by (simp add: takeWhile_append2)
qed

lemma show_nat_prefix:
  assumes "show_nat n @ r1 = show_nat m @ r2" and "delimited r1" and "delimited r2"
  shows "n = m"
proof -
  have "takeWhile is_digit (show_nat n @ r1) = takeWhile is_digit (show_nat m @ r2)"
    using assms(1) by simp
  then have "show_nat n = show_nat m"
    by (simp add: takeWhile_digits[OF assms(2)] takeWhile_digits[OF assms(3)])
  then show ?thesis by (rule show_nat_inj)
qed

lemma hd_show_nat_digit: "is_digit (hd (show_nat n))"
  using show_nat_digits[of "hd (show_nat n)" n] show_nat_nonempty[of n] by simp

lemma show_nat_not_minus: "show_nat n \<noteq> CHR ''-'' # xs"
proof
  assume "show_nat n = CHR ''-'' # xs"
  with hd_show_nat_digit[of n] show False by (simp add: is_digit_def)
qed

lemma show_int_prefix:
  assumes "show_int i @ r1 = show_int j @ r2" and "delimited r1" and "delimited r2"
  shows "i = j"
proof (cases "i < 0"; cases "j < 0")
  assume n: "i < 0" "j < 0"
  with assms(1) have "show_nat (nat (- i)) @ r1 = show_nat (nat (- j)) @ r2"
    by (simp add: show_int_def)
  from show_nat_prefix[OF this assms(2,3)] n show ?thesis by simp
next
  assume n: "i < 0" "\<not> j < 0"
  with assms(1) have "CHR ''-'' # show_nat (nat (- i)) @ r1 = show_nat (nat j) @ r2"
    by (simp add: show_int_def)
  then have "show_nat (nat j) = CHR ''-'' # tl (show_nat (nat j))"
    using show_nat_nonempty[of "nat j"] by (cases "show_nat (nat j)") auto
  with show_nat_not_minus show ?thesis by blast
next
  assume n: "\<not> i < 0" "j < 0"
  with assms(1) have "show_nat (nat i) @ r1 = CHR ''-'' # show_nat (nat (- j)) @ r2"
    by (simp add: show_int_def)
  then have "show_nat (nat i) = CHR ''-'' # tl (show_nat (nat i))"
    using show_nat_nonempty[of "nat i"] by (cases "show_nat (nat i)") auto
  with show_nat_not_minus show ?thesis by blast
next
  assume n: "\<not> i < 0" "\<not> j < 0"
  with assms(1) have "show_nat (nat i) @ r1 = show_nat (nat j) @ r2"
    by (simp add: show_int_def)
  from show_nat_prefix[OF this assms(2,3)] n show ?thesis by simp
qed

lemma hd_show_int: "show_int i \<noteq> [] \<and> (is_digit (hd (show_int i)) \<or> hd (show_int i) = CHR ''-'')"
  using hd_show_nat_digit show_nat_nonempty by (simp add: show_int_def)

lemma hex_digit_inj: "d < 16 \<Longrightarrow> d' < 16 \<Longrightarrow> hex_digit d = hex_digit d' \<Longrightarrow> d = d'"
proof -
  have dist: "distinct ''0123456789abcdef''" by simp
  show "d < 16 \<Longrightarrow> d' < 16 \<Longrightarrow> hex_digit d = hex_digit d' \<Longrightarrow> d = d'"
    unfolding hex_digit_def using nth_eq_iff_index_eq[OF dist, of d d'] by simp
qed

lemma escape_char_shape:
  "escape_char c = [c] \<and> c \<noteq> CHR 0x5C \<and> c \<noteq> CHR 0x22
   \<or> (\<exists>x. escape_char c = [CHR 0x5C, x] \<and> x \<noteq> CHR ''u'')
   \<or> escape_char c = [CHR 0x5C, CHR ''u'', CHR ''0'', CHR ''0'',
          hex_digit ((of_char c :: nat) div 16), hex_digit ((of_char c :: nat) mod 16)]"
  by (simp add: escape_char_def)

lemma escape_char_short_inj:
  "escape_char c = [CHR 0x5C, x] \<Longrightarrow> escape_char d = [CHR 0x5C, x] \<Longrightarrow> c = d"
  by (auto simp: escape_char_def split: if_splits)

lemma escape_char_unicode_inj:
  assumes "escape_char c = [CHR 0x5C, CHR ''u'', CHR ''0'', CHR ''0'', h1, h2]"
    and "escape_char d = [CHR 0x5C, CHR ''u'', CHR ''0'', CHR ''0'', h1, h2]"
  shows "c = d"
proof -
  from assms(1) have c: "(of_char c :: nat) < 32" "h1 = hex_digit ((of_char c :: nat) div 16)"
    "h2 = hex_digit ((of_char c :: nat) mod 16)"
    by (auto simp: escape_char_def split: if_splits)
  from assms(2) have d: "(of_char d :: nat) < 32" "h1 = hex_digit ((of_char d :: nat) div 16)"
    "h2 = hex_digit ((of_char d :: nat) mod 16)"
    by (auto simp: escape_char_def split: if_splits)
  have "(of_char c :: nat) div 16 = (of_char d :: nat) div 16"
    using c d by (intro hex_digit_inj) auto
  moreover have "(of_char c :: nat) mod 16 = (of_char d :: nat) mod 16"
    using c d by (intro hex_digit_inj) auto
  ultimately have "(of_char c :: nat) = of_char d" by (metis div_mult_mod_eq)
  then show ?thesis by simp
qed

lemma escape_char_prefix:
  assumes "escape_char c @ X = escape_char d @ Y"
  shows "c = d"
  using escape_char_shape[of c] escape_char_shape[of d] assms
  by (elim disjE exE conjE)
     (auto dest: escape_char_short_inj escape_char_unicode_inj
           intro: escape_char_short_inj escape_char_unicode_inj)

lemma escape_char_not_quote: "escape_char c \<noteq> [] \<and> hd (escape_char c) \<noteq> CHR 0x22"
  using escape_char_shape[of c] by auto

lemma escaped_body_prefix:
  "concat (map escape_char s) @ CHR 0x22 # r1 = concat (map escape_char t) @ CHR 0x22 # r2
   \<Longrightarrow> s = t"
proof (induction s arbitrary: t)
  case Nil
  show ?case
  proof (cases t)
    case Nil
    then show ?thesis by simp
  next
    case (Cons d t')
    with Nil.prems have "hd (escape_char d @ concat (map escape_char t') @ CHR 0x22 # r2) = CHR 0x22"
      by (metis append.assoc append_Nil concat.simps(1,2) list.map(1,2) list.sel(1))
    then show ?thesis using escape_char_not_quote[of d] by simp
  qed
next
  case (Cons c s')
  show ?case
  proof (cases t)
    case Nil
    with Cons.prems have "hd (escape_char c @ concat (map escape_char s') @ CHR 0x22 # r1) = CHR 0x22"
      by simp
    then show ?thesis using escape_char_not_quote[of c] by simp
  next
    case (Cons d t')
    with Cons.prems have eq: "escape_char c @ (concat (map escape_char s') @ CHR 0x22 # r1)
        = escape_char d @ (concat (map escape_char t') @ CHR 0x22 # r2)"
      by simp
    from escape_char_prefix[OF eq] have cd: "c = d" .
    with eq have "concat (map escape_char s') @ CHR 0x22 # r1
        = concat (map escape_char t') @ CHR 0x22 # r2"
      by simp
    from Cons.IH[OF this] cd Cons show ?thesis by simp
  qed
qed

lemma QuoteJSONString_prefix:
  "QuoteJSONString s @ r1 = QuoteJSONString t @ r2 \<Longrightarrow> s = t"
  using escaped_body_prefix[of s r1 t r2] by (simp add: QuoteJSONString_def)

subsection \<open>Keys of tuples that differ in a primitive\<close>

lemma primitive_text_prefix:
  assumes pa: "json_primitive a" and pb: "json_primitive b"
    and ta: "serialize a = Text ta" and tb: "serialize b = Text tb"
    and eq: "ta @ r1 = tb @ r2" and d1: "delimited r1" and d2: "delimited r2"
  shows "a = b"
proof -
  have num_start: "show_int i \<noteq> c # xs" if "\<not> is_digit c" "c \<noteq> CHR ''-''" for i c xs
    using hd_show_int[of i] that by (cases "show_int i") auto
  have nd: "\<not> is_digit (CHR ''n'')" "\<not> is_digit (CHR ''t'')" "\<not> is_digit (CHR ''f'')"
    "\<not> is_digit (CHR 0x22)"
    by (simp_all add: is_digit_def)
  have num_vs: "show_int i @ r \<noteq> c # xs" if "\<not> is_digit c" "c \<noteq> CHR ''-''" for i c xs r
    using hd_show_int[of i] that by (cases "show_int i") auto
  show ?thesis
  proof (cases a)
    case JNull
    with pb ta tb eq show ?thesis
      using num_vs[of "CHR ''n''"] nd
      by (cases b) (auto simp: QuoteJSONString_def split: if_splits dest: sym)
  next
    case (JBool x)
    with pb ta tb eq show ?thesis
      using num_vs[of "CHR ''t''"] num_vs[of "CHR ''f''"] nd
      by (cases b) (auto simp: QuoteJSONString_def split: if_splits dest: sym)
  next
    case (JNum i)
    show ?thesis
    proof (cases b)
      case (JNum j)
      with \<open>a = JNum i\<close> ta tb eq have "show_int i @ r1 = show_int j @ r2" by auto
      from show_int_prefix[OF this d1 d2] JNum \<open>a = JNum i\<close> show ?thesis by simp
    qed (use pb ta tb eq \<open>a = JNum i\<close> num_vs[of "CHR ''n''"] num_vs[of "CHR ''t''"]
          num_vs[of "CHR ''f''"] num_vs[of "CHR 0x22"] nd
         in \<open>auto simp: QuoteJSONString_def split: if_splits\<close>)
  next
    case (JStr s)
    show ?thesis
    proof (cases b)
      case (JStr t)
      with \<open>a = JStr s\<close> ta tb eq have "QuoteJSONString s @ r1 = QuoteJSONString t @ r2" by auto
      from QuoteJSONString_prefix[OF this] JStr \<open>a = JStr s\<close> show ?thesis by simp
    qed (use pb ta tb eq \<open>a = JStr s\<close> num_vs[of "CHR 0x22"] nd
         in \<open>auto simp: QuoteJSONString_def split: if_splits dest: sym\<close>)
  qed (use pa in simp_all)
qed

theorem key_distinctness_counterexample:
  "JNull \<noteq> JUndefined
   \<and> getCacheKeyForParams [JNull] = getCacheKeyForParams [JUndefined]
   \<and> cacheSize (getStats DEFAULT_OPTIONS 2
        (run_calls DEFAULT_OPTIONS count_params
          [call_at 0 [JNull] 0, call_at 0 [JUndefined] 1] createParameterizedSelector)) = 1"
  by code_simp

subsection \<open>The fallback encoder\<close>

theorem fallback_keys_unsorted_counterexample:
  "serialize (JArr [JObj [(''b'', JNum 1), (''a'', JBigInt 2)]]) = Throws
   \<and> getCacheKeyForParams [JObj [(''b'', JNum 1), (''a'', JBigInt 2)]] = ''obj_b_a''
   \<and> getCacheKeyForParams [JObj [(''b'', JNum 1), (''a'', JBigInt 2)]] \<noteq> ''obj_a_b''"
  by code_simp

text \<open>
  Claim C5, amended. Whenever the structural encoding of the parameter array throws,
  the key is the fallback texts of the parameters joined by \<^verbatim>\<open>|\<close>, where the fallback
  text of \<^verbatim>\<open>null\<close> is \<^verbatim>\<open>null\<close>, of \<^verbatim>\<open>undefined\<close> is \<^verbatim>\<open>undefined\<close>, of a function is
  \<^verbatim>\<open>fn_\<close> plus its name (\<^verbatim>\<open>anonymous\<close> when the name is empty), of an object is
  \<^verbatim>\<open>obj_\<close> plus its top-level key names joined by \<^verbatim>\<open>_\<close> in the order
  \<^verbatim>\<open>Object.keys\<close> enumerates them, and of any other value is \<^verbatim>\<open>String(value)\<close>.
\<close>

theorem fallback_key_encoding:
  assumes "serialize (JArr params) = Throws"
  shows "getCacheKeyForParams params = join_with ''|'' (map fallback_param params)
       \<and> fallback_param JNull = ''null''
       \<and> fallback_param JUndefined = ''undefined''
       \<and> fallback_param (JFun name source) = ''fn_'' @ (if name = [] then ''anonymous'' else name)
       \<and> fallback_param (JObj props) = ''obj_'' @ join_with ''_'' (map fst props)
       \<and> (is_object v \<longrightarrow> fallback_param v = ''obj_'' @ join_with ''_'' (Object_keys v))
       \<and> (v \<noteq> JNull \<and> v \<noteq> JUndefined \<and> (\<forall>n src. v \<noteq> JFun n src) \<and> \<not> is_object v
            \<longrightarrow> fallback_param v = js_String v)"
proof -
  have key: "getCacheKeyForParams params = join_with ''|'' (map fallback_param params)"
    using assms by (simp add: getCacheKeyForParams_def)
  have obj: "fallback_param v = ''obj_'' @ join_with ''_'' (Object_keys v)" if "is_object v"
    using that by (cases v) (simp_all add: fallback_param_def)
  have other: "fallback_param v = js_String v"
    if "v \<noteq> JNull" "v \<noteq> JUndefined" "\<forall>n src. v \<noteq> JFun n src" "\<not> is_object v"
    using that by (cases v) (simp_all add: fallback_param_def)
  have fixed: "fallback_param JNull = ''null''" "fallback_param JUndefined = ''undefined''"
    "fallback_param (JFun name source) = ''fn_'' @ (if name = [] then ''anonymous'' else name)"
    "fallback_param (JObj props) = ''obj_'' @ join_with ''_'' (map fst props)"
    by (simp_all add: fallback_param_def)
  from key fixed obj other show ?thesis by blast
qed

theorem fallback_key_encoding_witness:
  "serialize (JArr [JObj [(''b'', JNum 1), (''a'', JBigInt 2)], JNull, JFun [] ''() => 1'',
                    JFun ''pick'' ''function pick() {}'', JUndefined, JNum 7, JStr ''s''])
     = Throws
   \<and> is_object (JArr [JNum 5, JNum 6])
   \<and> getCacheKeyForParams [JObj [(''b'', JNum 1), (''a'', JBigInt 2)], JNull, JFun [] ''() => 1'',
                            JFun ''pick'' ''function pick() {}'', JUndefined, JNum 7, JStr ''s'']
     = ''obj_b_a|null|fn_anonymous|fn_pick|undefined|7|s''
   \<and> fallback_param (JArr [JNum 5, JNum 6]) = ''obj_0_1''"
proof -
  let ?ps = "[JObj [(''b'', JNum 1), (''a'', JBigInt 2)], JNull, JFun [] ''() => 1'',
              JFun ''pick'' ''function pick() {}'', JUndefined, JNum 7, JStr ''s'']"
  have t: "serialize (JArr ?ps) = Throws" by code_simp
  have o: "is_object (JArr [JNum 5, JNum 6])" by simp
  have j: "join_with ''|'' (map fallback_param ?ps) = ''obj_b_a|null|fn_anonymous|fn_pick|undefined|7|s''"
    by code_simp
  have k: "''obj_'' @ join_with ''_'' (Object_keys (JArr [JNum 5, JNum 6])) = ''obj_0_1''"
    by code_simp
  from fallback_key_encoding[OF t, of _ _ _ "JArr [JNum 5, JNum 6]"] o j k
  have "getCacheKeyForParams ?ps = ''obj_b_a|null|fn_anonymous|fn_pick|undefined|7|s''"
    and "fallback_param (JArr [JNum 5, JNum 6]) = ''obj_0_1''"
    by simp_all
  with t o show ?thesis by blast
qed

subsection \<open>The text of a value ends where it ends\<close>

lemma start_kind_append: "t \<noteq> [] \<Longrightarrow> start_kind (t @ r) = start_kind t"
  by (cases t) (simp_all add: start_kind_def)

lemma start_kind_number: "start_kind (show_int i) = 4"
proof -
  obtain c rest where c: "show_int i = c # rest"
    using hd_show_int[of i] by (cases "show_int i") auto
  with hd_show_int[of i] have "is_digit c \<or> c = CHR ''-''" by simp
  then have "c \<noteq> CHR ''['' \<and> c \<noteq> CHR ''{'' \<and> c \<noteq> CHR 0x22"
    by (auto simp: is_digit_def)
  with \<open>is_digit c \<or> c = CHR ''-''\<close> show ?thesis by (auto simp: start_kind_def c)
qed

lemma start_kind_value_text:
  "value_text t \<Longrightarrow> t \<noteq> [] \<and> start_kind t \<noteq> 0"
proof (induction rule: value_text.induct)
  case (number i)
  show ?case by (simp add: start_kind_number show_int_nonempty)
qed (simp_all add: start_kind_def QuoteJSONString_def is_digit_def)

lemma start_kind_closing: "start_kind (CHR '']'' # r) = 0" "start_kind (CHR ''}'' # r) = 0"
  "start_kind (CHR '','' # r) = 0"
  by (simp_all add: start_kind_def is_digit_def)

lemma join_with_Cons:
  "join_with sep (x # xs) = x @ (if xs = [] then [] else sep @ join_with sep xs)"
  by (cases xs) simp_all

lemma join_unique:
  assumes "\<And>t u r1 r2. t \<in> set ts \<Longrightarrow> u \<in> set us \<Longrightarrow> t @ r1 = u @ r2
             \<Longrightarrow> delimited r1 \<Longrightarrow> delimited r2 \<Longrightarrow> t = u"
    and "\<And>t. t \<in> set ts \<union> set us \<Longrightarrow> t \<noteq> [] \<and> start_kind t \<noteq> 0"
    and "c = CHR '']'' \<or> c = CHR ''}''"
    and "join_with '','' ts @ c # r1 = join_with '','' us @ c # r2"
  shows "ts = us"
  using assms
proof (induction ts arbitrary: us)
  case Nil
  show ?case
  proof (cases us)
    case Nil
    then show ?thesis by simp
  next
    case (Cons u us')
    from Nil.prems(2)[of u] Cons have u: "u \<noteq> []" "start_kind u \<noteq> 0" by auto
    from Nil.prems(4) Cons have "c # r1 = u @ ((if us' = [] then [] else '','' @ join_with '','' us') @ c # r2)"
      by (simp add: join_with_Cons)
    then have "start_kind (c # r1) = start_kind u"
      using start_kind_append[OF u(1)] by metis
    with u(2) Nil.prems(3) show ?thesis by (auto simp: start_kind_closing)
  qed
next
  case (Cons t ts')
  let ?R1 = "(if ts' = [] then [] else '','' @ join_with '','' ts') @ c # r1"
  have t: "t \<noteq> []" "start_kind t \<noteq> 0" using Cons.prems(2)[of t] by auto
  have d1: "delimited ?R1" using Cons.prems(3) by (auto simp: delimited_def)
  show ?case
  proof (cases us)
    case Nil
    with Cons.prems(4) have "t @ ?R1 = c # r2" by (simp add: join_with_Cons)
    then have "start_kind (c # r2) = start_kind t"
      using start_kind_append[OF t(1)] by metis
    with t(2) Cons.prems(3) show ?thesis by (auto simp: start_kind_closing)
  next
    case (Cons u us')
    let ?R2 = "(if us' = [] then [] else '','' @ join_with '','' us') @ c # r2"
    have d2: "delimited ?R2" using Cons.prems(3) by (auto simp: delimited_def)
    from Cons.prems(4) Cons have eq: "t @ ?R1 = u @ ?R2" by (simp add: join_with_Cons)
    have tu: "t = u"
      by (rule Cons.prems(1)[OF _ _ eq d1 d2]) (simp_all add: Cons)
    with eq have R: "?R1 = ?R2" by simp
    have "ts' = us'"
    proof (cases "ts' = []"; cases "us' = []")
      assume "ts' = []" "us' = []"
      then show ?thesis by simp
    next
      assume "ts' = []" "us' \<noteq> []"
      with R Cons.prems(3) show ?thesis by auto
    next
      assume "ts' \<noteq> []" "us' = []"
      with R Cons.prems(3) show ?thesis by auto
    next
      assume ne: "ts' \<noteq> []" "us' \<noteq> []"
      with R have "join_with '','' ts' @ c # r1 = join_with '','' us' @ c # r2" by simp
      then show ?thesis
        by (intro Cons.IH) (use Cons.prems(1,2,3) Cons in auto)
    qed
    with tu Cons show ?thesis by simp
  qed
qed

lemma start_kind_forms:
  "start_kind ''null'' = 5" "start_kind ''true'' = 5" "start_kind ''false'' = 5"
  "start_kind (QuoteJSONString s) = 3"
  "start_kind (CHR ''['' # x) = 1" "start_kind (CHR ''{'' # y) = 2"
  by (simp_all add: start_kind_def QuoteJSONString_def is_digit_def)

lemma same_start_kind:
  assumes "value_text t" and "value_text u" and "t @ r1 = u @ r2"
  shows "start_kind t = start_kind u"
proof -
  have "t \<noteq> []" "u \<noteq> []" using start_kind_value_text assms(1,2) by blast+
  then have "start_kind t = start_kind (t @ r1)" "start_kind u = start_kind (u @ r2)"
    by (simp_all add: start_kind_append)
  with assms(3) show ?thesis by simp
qed

lemma member_text_prefix:
  assumes ih: "\<And>u r1 r2. value_text u \<Longrightarrow> t @ r1 = u @ r2 \<Longrightarrow> delimited r1 \<Longrightarrow> delimited r2
                 \<Longrightarrow> t = u"
    and u: "value_text u"
    and eq: "(QuoteJSONString k @ '':'' @ t) @ r1 = (QuoteJSONString k' @ '':'' @ u) @ r2"
    and d: "delimited r1" "delimited r2"
  shows "QuoteJSONString k @ '':'' @ t = QuoteJSONString k' @ '':'' @ u"
proof -
  from eq have e: "QuoteJSONString k @ ('':'' @ t @ r1) = QuoteJSONString k' @ ('':'' @ u @ r2)"
    by simp
  from QuoteJSONString_prefix[OF e] have k: "k = k'" .
  with e have "t @ r1 = u @ r2" by simp
  from ih[OF u this d] k show ?thesis by simp
qed

lemma value_text_prefix:
  "value_text t \<Longrightarrow> value_text u \<Longrightarrow> t @ r1 = u @ r2 \<Longrightarrow> delimited r1 \<Longrightarrow> delimited r2
   \<Longrightarrow> t = u"
proof (induction arbitrary: u r1 r2 rule: value_text.induct)
  case literal_null
  from same_start_kind[OF value_text.literal_null literal_null.prems(1,2)]
  have k: "start_kind u = 5" by (simp add: start_kind_forms)
  from literal_null.prems(1) k literal_null.prems(2) show ?case
    by (cases rule: value_text.cases) (auto simp: start_kind_forms start_kind_number)
next
  case literal_true
  from same_start_kind[OF value_text.literal_true literal_true.prems(1,2)]
  have k: "start_kind u = 5" by (simp add: start_kind_forms)
  from literal_true.prems(1) k literal_true.prems(2) show ?case
    by (cases rule: value_text.cases) (auto simp: start_kind_forms start_kind_number)
next
  case literal_false
  from same_start_kind[OF value_text.literal_false literal_false.prems(1,2)]
  have k: "start_kind u = 5" by (simp add: start_kind_forms)
  from literal_false.prems(1) k literal_false.prems(2) show ?case
    by (cases rule: value_text.cases) (auto simp: start_kind_forms start_kind_number)
next
  case (number i)
  from same_start_kind[OF value_text.number number.prems(1,2)]
  have k: "start_kind u = 4" by (simp add: start_kind_number)
  from number.prems(1) k show ?case
  proof (cases rule: value_text.cases)
    case (number j)
    with show_int_prefix[of i r1 j r2] number.prems show ?thesis by simp
  qed (simp_all add: start_kind_forms)
next
  case (quoted s)
  from same_start_kind[OF value_text.quoted quoted.prems(1,2)]
  have k: "start_kind u = 3" by (simp add: start_kind_forms)
  from quoted.prems(1) k show ?case
  proof (cases rule: value_text.cases)
    case (quoted s')
    with QuoteJSONString_prefix[of s r1 s' r2] quoted.prems show ?thesis by simp
  qed (simp_all add: start_kind_forms start_kind_number)
next
  case (array ts)
  have vt: "value_text (''['' @ join_with '','' ts @ '']'')"
    using array.IH by (intro value_text.array) blast
  from same_start_kind[OF vt array.prems(1,2)]
  have k: "start_kind u = 1" by (simp add: start_kind_forms)
  from array.prems(1) k show ?case
  proof (cases rule: value_text.cases)
    case (array us)
    from array.prems(2) array(1)
    have eq: "join_with '','' ts @ CHR '']'' # r1 = join_with '','' us @ CHR '']'' # r2"
      by simp
    have "ts = us"
    proof (rule join_unique[OF _ _ _ eq])
      fix t v q1 q2
      assume "t \<in> set ts" "v \<in> set us" "t @ q1 = v @ q2" "delimited q1" "delimited q2"
      with array.IH array(2) show "t = v" by blast
    next
      fix t assume "t \<in> set ts \<union> set us"
      with array.IH array(2) have "value_text t" by blast
      then show "t \<noteq> [] \<and> start_kind t \<noteq> 0" by (rule start_kind_value_text)
    qed simp
    with array(1) show ?thesis by simp
  qed (simp_all add: start_kind_forms start_kind_number)
next
  case (object kts)
  let ?m = "\<lambda>(k, t). QuoteJSONString k @ '':'' @ t"
  have vt: "value_text (''{'' @ join_with '','' (map ?m kts) @ ''}'')"
    using object.IH by (intro value_text.object) blast
  from same_start_kind[OF vt object.prems(1,2)]
  have k: "start_kind u = 2" by (simp add: start_kind_forms)
  from object.prems(1) k show ?case
  proof (cases rule: value_text.cases)
    case (object kus)
    from object.prems(2) object(1)
    have eq: "join_with '','' (map ?m kts) @ CHR ''}'' # r1
                = join_with '','' (map ?m kus) @ CHR ''}'' # r2"
      by simp
    have "map ?m kts = map ?m kus"
    proof (rule join_unique[OF _ _ _ eq])
      fix e e' q1 q2
      assume e: "e \<in> set (map ?m kts)" and e': "e' \<in> set (map ?m kus)"
        and q: "e @ q1 = e' @ q2" "delimited q1" "delimited q2"
      from e obtain k t where kt: "(k, t) \<in> set kts" "e = QuoteJSONString k @ '':'' @ t"
        by auto
      from e' obtain k' t' where kt': "(k', t') \<in> set kus" "e' = QuoteJSONString k' @ '':'' @ t'"
        by auto
      from kt' object(2) have vt': "value_text t'" by blast
      have ih: "\<And>u r1 r2. value_text u \<Longrightarrow> t @ r1 = u @ r2 \<Longrightarrow> delimited r1 \<Longrightarrow> delimited r2
                 \<Longrightarrow> t = u"
        using object.IH kt(1) by blast
      show "e = e'"
        unfolding kt(2) kt'(2)
        by (rule member_text_prefix[OF ih vt' q(1)[unfolded kt(2) kt'(2)] q(2,3)])
    next
      fix e assume "e \<in> set (map ?m kts) \<union> set (map ?m kus)"
      then obtain k t where "e = QuoteJSONString k @ '':'' @ t" by auto
      then show "e \<noteq> [] \<and> start_kind e \<noteq> 0"
        by (simp add: start_kind_def QuoteJSONString_def)
    qed simp
    with object(1) show ?thesis by simp
  qed (simp_all add: start_kind_forms start_kind_number)
qed

lemma array_text_eq:
  "array_text rs = (if Throws \<in> set rs then Throws
                    else Text (''['' @ join_with '','' (map element_text rs) @ '']''))"
proof -
  have "(\<lambda>r. case r of Text t \<Rightarrow> t | _ \<Rightarrow> ''null'') = element_text"
    by (rule ext) (simp add: element_text_def)
  then show ?thesis by (simp add: array_text_def)
qed

lemma array_text_value:
  assumes "\<And>r. r \<in> set rs \<Longrightarrow> r \<noteq> Throws \<Longrightarrow> value_text (element_text r)"
    and "array_text rs \<noteq> Throws"
  shows "value_text (element_text (array_text rs))"
proof -
  from assms(2) have nt: "Throws \<notin> set rs" by (auto simp: array_text_eq split: if_splits)
  then have "\<forall>t \<in> set (map element_text rs). value_text t" using assms(1) by auto
  from value_text.array[OF this] nt show ?thesis
    by (simp add: array_text_eq element_text_def)
qed

lemma member_texts:
  "concat (map (\<lambda>(k, r). case r of Text t \<Rightarrow> [QuoteJSONString k @ '':'' @ t] | _ \<Rightarrow> []) rs)
     = map (\<lambda>(k, t). QuoteJSONString k @ '':'' @ t)
         (concat (map (\<lambda>(k, r). case r of Text t \<Rightarrow> [(k, t)] | _ \<Rightarrow> []) rs))"
  by (induction rs) (auto split: json_result.splits)

lemma object_text_value:
  assumes "\<And>k r t. (k, r) \<in> set rs \<Longrightarrow> r = Text t \<Longrightarrow> value_text t"
    and "object_text rs \<noteq> Throws"
  shows "value_text (element_text (object_text rs))"
proof -
  let ?kts = "concat (map (\<lambda>(k, r). case r of Text t \<Rightarrow> [(k, t)] | _ \<Rightarrow> []) rs)"
  from assms(2) have nt: "Throws \<notin> set (map snd rs)"
    by (auto simp: object_text_def split: if_splits)
  have "\<forall>(k, t) \<in> set ?kts. value_text t"
    using assms(1) by (auto split: json_result.splits)
  then have v: "value_text (''{'' @ join_with '','' (map (\<lambda>(k, t). QuoteJSONString k @ '':'' @ t) ?kts) @ ''}'')"
    by (rule value_text.object)
  have t: "object_text rs
             = Text (''{'' @ join_with '','' (map (\<lambda>(k, t). QuoteJSONString k @ '':'' @ t) ?kts) @ ''}'')"
    unfolding object_text_def member_texts using nt by (simp only: if_False)
  show ?thesis unfolding t element_text_def json_result.case by (rule v)
qed

lemma serialize_value_text:
  "serialize v \<noteq> Throws \<Longrightarrow> value_text (element_text (serialize v))"
proof (induction v rule: serialize.induct)
  case (11 props)
  show ?case
    unfolding serialize.simps
  proof (rule object_text_value)
    fix k r t
    assume m: "(k, r) \<in> set (map (\<lambda>(k, v). (k, serialize v)) props)" and r: "r = Text t"
    then obtain v where v: "(k, v) \<in> set props" "serialize v = Text t" by auto
    from "11.IH"[OF v(1) refl] v(2) show "value_text t" by (simp add: element_text_def)
  next
    show "object_text (map (\<lambda>(k, v). (k, serialize v)) props) \<noteq> Throws"
      using "11.prems" by simp
  qed
next
  case (12 xs)
  show ?case
    unfolding serialize.simps
  proof (rule array_text_value)
    fix r assume "r \<in> set (map serialize xs)" "r \<noteq> Throws"
    then obtain x where "x \<in> set xs" "r = serialize x" "serialize x \<noteq> Throws" by auto
    with "12.IH" show "value_text (element_text r)" by simp
  next
    show "array_text (map serialize xs) \<noteq> Throws" using "12.prems" by simp
  qed
next
  case (13 entries)
  show ?case
    unfolding serialize.simps
  proof (rule array_text_value)
    fix r
    assume r: "r \<in> set (Text (QuoteJSONString ''__Map'')
                 # map (\<lambda>(k, v). array_text [serialize k, serialize v]) entries)"
      and nt: "r \<noteq> Throws"
    show "value_text (element_text r)"
    proof (cases "r = Text (QuoteJSONString ''__Map'')")
      case True
      then show ?thesis by (simp add: element_text_def value_text.quoted)
    next
      case False
      with r obtain k v where kv: "(k, v) \<in> set entries"
        "r = array_text [serialize k, serialize v]"
        by auto
      show ?thesis
        unfolding kv(2)
      proof (rule array_text_value)
        fix q assume "q \<in> set [serialize k, serialize v]" "q \<noteq> Throws"
        with "13.IH"(1)[OF kv(1) refl] "13.IH"(2)[OF kv(1) refl]
        show "value_text (element_text q)" by auto
      next
        show "array_text [serialize k, serialize v] \<noteq> Throws" using nt kv(2) by simp
      qed
    qed
  next
    show "array_text (Text (QuoteJSONString ''__Map'')
            # map (\<lambda>(k, v). array_text [serialize k, serialize v]) entries) \<noteq> Throws"
      using "13.prems" by simp
  qed
next
  case (14 xs)
  show ?case
    unfolding serialize.simps
  proof (rule array_text_value)
    fix r assume r: "r \<in> set (Text (QuoteJSONString ''__Set'') # map serialize xs)" "r \<noteq> Throws"
    show "value_text (element_text r)"
    proof (cases "r = Text (QuoteJSONString ''__Set'')")
      case True
      then show ?thesis by (simp add: element_text_def value_text.quoted)
    next
      case False
      with r obtain x where "x \<in> set xs" "r = serialize x" "serialize x \<noteq> Throws" by auto
      with "14.IH" show ?thesis by simp
    qed
  next
    show "array_text (Text (QuoteJSONString ''__Set'') # map serialize xs) \<noteq> Throws"
      using "14.prems" by simp
  qed
next
  case (18 ctor elems)
  have inner: "value_text (element_text (array_text (map (\<lambda>n. Text (show_int n)) elems)))"
    by (rule array_text_value)
       (auto simp: element_text_def array_text_eq intro: value_text.number)
  have nt: "array_text (map (\<lambda>n. Text (show_int n)) elems) \<noteq> Throws"
    by (auto simp: array_text_eq)
  show ?case
    unfolding serialize.simps
    by (rule array_text_value)
       (use inner nt "18.prems" in \<open>auto simp: element_text_def intro: value_text.quoted\<close>)
qed (auto simp: element_text_def array_text_eq
       intro: value_text.intros value_text.array[of "[a, b]" for a b, simplified]
         value_text.array[of "[a, b, c]" for a b c, simplified])

lemma structural_key:
  assumes "serialize (JArr params) \<noteq> Throws"
  shows "getCacheKeyForParams params
           = ''['' @ join_with '','' (map element_text (map serialize params)) @ '']''"
    and "Throws \<notin> set (map serialize params)"
  using assms by (auto simp: getCacheKeyForParams_def array_text_eq split: if_splits)

lemma equal_keys_equal_texts:
  assumes nt1: "serialize (JArr ps1) \<noteq> Throws" and nt2: "serialize (JArr ps2) \<noteq> Throws"
    and eq: "getCacheKeyForParams ps1 = getCacheKeyForParams ps2"
  shows "map element_text (map serialize ps1) = map element_text (map serialize ps2)"
proof -
  let ?ts = "map element_text (map serialize ps1)"
  let ?us = "map element_text (map serialize ps2)"
  have v1: "value_text t" if "t \<in> set ?ts" for t
  proof -
    from that obtain v where "v \<in> set ps1" "t = element_text (serialize v)" by auto
    moreover from this structural_key(2)[OF nt1] have "serialize v \<noteq> Throws" by force
    ultimately show ?thesis using serialize_value_text by simp
  qed
  have v2: "value_text t" if "t \<in> set ?us" for t
  proof -
    from that obtain v where "v \<in> set ps2" "t = element_text (serialize v)" by auto
    moreover from this structural_key(2)[OF nt2] have "serialize v \<noteq> Throws" by force
    ultimately show ?thesis using serialize_value_text by simp
  qed
  from eq have j: "join_with '','' ?ts @ CHR '']'' # [] = join_with '','' ?us @ CHR '']'' # []"
    unfolding structural_key(1)[OF nt1] structural_key(1)[OF nt2] by simp
  show ?thesis
  proof (rule join_unique[OF _ _ _ j])
    fix t u r1 r2
    assume "t \<in> set ?ts" "u \<in> set ?us" "t @ r1 = u @ r2" "delimited r1" "delimited r2"
    then show "t = u" using value_text_prefix[OF v1 v2] by blast
  next
    fix t assume "t \<in> set ?ts \<union> set ?us"
    then have "value_text t" using v1 v2 by blast
    then show "t \<noteq> [] \<and> start_kind t \<noteq> 0" by (rule start_kind_value_text)
  qed simp
qed

lemma keys_differ_at_primitive:
  assumes i: "i < length ps1" "i < length ps2"
    and prim: "json_primitive (ps1 ! i)" "json_primitive (ps2 ! i)"
    and ne: "ps1 ! i \<noteq> ps2 ! i"
    and nt: "serialize (JArr ps1) \<noteq> Throws" "serialize (JArr ps2) \<noteq> Throws"
  shows "getCacheKeyForParams ps1 \<noteq> getCacheKeyForParams ps2"
proof
  assume "getCacheKeyForParams ps1 = getCacheKeyForParams ps2"
  from equal_keys_equal_texts[OF nt this]
  have "map element_text (map serialize ps1) ! i = map element_text (map serialize ps2) ! i"
    by simp
  with i have e: "element_text (serialize (ps1 ! i)) = element_text (serialize (ps2 ! i))"
    by simp
  obtain ta where ta: "serialize (ps1 ! i) = Text ta" using prim(1) by (cases "ps1 ! i") auto
  obtain tb where tb: "serialize (ps2 ! i) = Text tb" using prim(2) by (cases "ps2 ! i") auto
  from e ta tb have "ta @ '']'' = tb @ '']''" by (simp add: element_text_def)
  moreover have "delimited '']''" by (simp add: delimited_def)
  ultimately have "ps1 ! i = ps2 ! i"
    using primitive_text_prefix[OF prim ta tb] by blast
  with ne show False by simp
qed

text \<open>
  Claim C6, amended. On a new factory instance with \<open>2 \<le> maxSize\<close>, for two argument
  tuples whose structural encoding does not throw and that hold, at some position of
  both, two different values among \<^verbatim>\<open>null\<close>, the booleans, the finite numbers and the
  strings: their cache keys differ, and one call with each leaves
  \<^verbatim>\<open>getStats().cacheSize\<close> equal to 2.
\<close>

theorem distinct_primitives_make_two_entries:
  fixes opts :: "'r options" and sel :: "'st \<Rightarrow> jsval list \<Rightarrow> 'e + 'r"
    and c1 c2 :: "'st call"
  assumes m: "2 \<le> maxSize opts"
    and i: "i < length (call_params c1)" "i < length (call_params c2)"
    and prim: "json_primitive (call_params c1 ! i)" "json_primitive (call_params c2 ! i)"
    and ne: "call_params c1 ! i \<noteq> call_params c2 ! i"
    and nt: "serialize (JArr (call_params c1)) \<noteq> Throws"
      "serialize (JArr (call_params c2)) \<noteq> Throws"
  shows "getCacheKeyForParams (call_params c1) \<noteq> getCacheKeyForParams (call_params c2)
       \<and> cacheSize (getStats opts now
            (run_calls opts sel [c1, c2] createParameterizedSelector)) = 2"
proof -
  let ?s0 = "createParameterizedSelector :: ('st, 'r) factory"
  let ?s1 = "snd (factorySelector opts sel c1 ?s0)"
  let ?s2 = "snd (factorySelector opts sel c2 ?s1)"
  have kd: "getCacheKeyForParams (call_params c1) \<noteq> getCacheKeyForParams (call_params c2)"
    by (rule keys_differ_at_primitive[OF i prim ne nt])
  have i0: "store_inv ?s0" by (rule store_inv_create)
  have i1: "store_inv ?s1" by (rule store_inv_factorySelector[OF i0])
  have k0: "cache_keys ?s0 = []" "keyUsage ?s0 = []"
    by (simp_all add: cache_keys_def createParameterizedSelector_def)
  have k1: "cache_keys ?s1 = [getCacheKeyForParams (call_params c1)]"
    using call_on_absent_key(2)[OF i0, of c1 opts sel] m by (simp add: k0)
  have k2: "cache_keys ?s2
              = [getCacheKeyForParams (call_params c1), getCacheKeyForParams (call_params c2)]"
    using call_on_absent_key(2)[OF i1, of c2 opts sel] m kd by (simp add: k1)
  have "length (cache_keys ?s2) = 2" unfolding k2 by simp
  then have "cacheSize (getStats opts now (run_calls opts sel [c1, c2] createParameterizedSelector)) = 2"
    by (simp add: getStats_def length_cache_keys)
  with kd show ?thesis by blast
qed

theorem distinct_primitives_make_two_entries_witness:
  "2 \<le> maxSize (DEFAULT_OPTIONS :: nat options)
   \<and> json_primitive (JNum 1) \<and> json_primitive (JNum 2)
   \<and> serialize (JArr [JObj [(''k'', JBool True)], JNum 1, JStr ''x'']) \<noteq> Throws
   \<and> serialize (JArr [JFun ''f'' ''function f() {}'', JNum 2]) \<noteq> Throws
   \<and> cacheSize (getStats (DEFAULT_OPTIONS :: nat options) 2
        (run_calls DEFAULT_OPTIONS count_params
          [call_at 0 [JObj [(''k'', JBool True)], JNum 1, JStr ''x''] 0,
           call_at 0 [JFun ''f'' ''function f() {}'', JNum 2] 1] createParameterizedSelector)) = 2"
proof -
  let ?c1 = "call_at (0::nat) [JObj [(''k'', JBool True)], JNum 1, JStr ''x''] 0"
  let ?c2 = "call_at (0::nat) [JFun ''f'' ''function f() {}'', JNum 2] 1"
  have m: "2 \<le> maxSize (DEFAULT_OPTIONS :: nat options)" by (simp add: DEFAULT_OPTIONS_def)
  have i: "1 < length (call_params ?c1)" "1 < length (call_params ?c2)"
    by (simp_all add: call_at_def)
  have prim: "json_primitive (call_params ?c1 ! 1)" "json_primitive (call_params ?c2 ! 1)"
    by (simp_all add: call_at_def)
  have ne: "call_params ?c1 ! 1 \<noteq> call_params ?c2 ! 1" by (simp add: call_at_def)
  have t1: "serialize (JArr [JObj [(''k'', JBool True)], JNum 1, JStr ''x'']) \<noteq> Throws"
    by code_simp
  have t2: "serialize (JArr [JFun ''f'' ''function f() {}'', JNum 2]) \<noteq> Throws" by code_simp
  have nt: "serialize (JArr (call_params ?c1)) \<noteq> Throws" "serialize (JArr (call_params ?c2)) \<noteq> Throws"
    using t1 t2 by (simp_all add: call_at_def)
  from distinct_primitives_make_two_entries[where opts = "DEFAULT_OPTIONS :: nat options"
      and sel = count_params and now = 2, OF m i prim ne nt]
  have "cacheSize (getStats (DEFAULT_OPTIONS :: nat options) 2
        (run_calls DEFAULT_OPTIONS count_params [?c1, ?c2] createParameterizedSelector)) = 2"
    by (rule conjunct2)
  with m t1 t2 show ?thesis by simp
qed

subsection \<open>Further facts\<close>

lemma store_inv_clearCache: "store_inv (clearCache s)"
  by (simp add: store_inv_def clearCache_def cache_keys_def)

lemma store_inv_invalidateCache:
  assumes "store_inv s"
  shows "store_inv (snd (invalidateCache parse predicate s))"
proof (cases predicate)
  case None
  then show ?thesis by (simp add: invalidateCache_def store_inv_clearCache)
next
  case (Some p)
  obtain n s' where r: "invalidateCache parse (Some p) s = (n, s')"
    by (cases "invalidateCache parse (Some p) s")
  from invalidateCache_with_predicate(5)[OF assms r] Some r show ?thesis by simp
qed

text \<open>
  With \<^verbatim>\<open>trackPerformance\<close>, after every call that returns a result the entry's
  \<^verbatim>\<open>executionTime\<close> is the reading of the performance clock taken by that call,
  whatever the computation's duration.
\<close>

lemma tracked_time_is_clock_reading:
  fixes opts :: "'r options" and sel :: "'st \<Rightarrow> jsval list \<Rightarrow> 'e + 'r"
  assumes inv: "store_inv s" and m: "1 \<le> maxSize opts" and tr: "trackPerformance opts"
    and ok: "fst (factorySelector opts sel c s) = Inr v"
  shows "\<exists>e. map_of (selectorCache (snd (factorySelector opts sel c s)))
               (getCacheKeyForParams (call_params c)) = Some e
             \<and> executionTime e = call_perfNow c"
proof -
  obtain e1 s1 where g: "getOrCreateCacheEntry opts (call_params c) (call_now c) s = (e1, s1)"
    by (cases "getOrCreateCacheEntry opts (call_params c) (call_now c) s")
  have pres: "getCacheKeyForParams (call_params c) \<in> set (cache_keys s1)"
    using key_present_after_lookup[OF inv m, of "call_params c" "call_now c"] by (simp add: g)
  obtain e2 where e2: "map_of (selectorCache (snd (factorySelector opts sel c s)))
               (getCacheKeyForParams (call_params c)) = Some e2"
    and c2: "e2 = fst (snd (computeResult opts sel (call_state c) (call_perfNow c) e1 s1))"
    using factorySelector_entry[OF g pres, of sel] by blast
  from ok have "fst (computeResult opts sel (call_state c) (call_perfNow c) e1 s1) = Inr v"
    by (simp add: factorySelector_def g split: prod.splits)
  then have "executionTime e2 = call_perfNow c"
    unfolding c2 using tr
    by (auto simp: computeResult_def Let_def split: prod.splits sum.splits)
  with e2 show ?thesis by blast
qed

section \<open>Properties of the pagination selector on numbers of the language\<close>






subsection \<open>The second of two consecutive calls\<close>

lemma run_memoized_remembers:
  "run_memoized eq sel st m = (Inr v, m') \<Longrightarrow> last_call m' = Some (st, v)"
  by (auto simp: run_memoized_def recompute_def Let_def split: option.splits sum.splits if_splits)

lemma run_memoized_remembered:
  "last_call m = Some (st, v) \<Longrightarrow> run_memoized eq sel st m = (Inr v, m)"
  by (simp add: run_memoized_def)

lemma factorySelector_same_runs:
  fixes sel sel' :: "'st \<Rightarrow> jsval list \<Rightarrow> 'e + 'r"
  assumes "run_memoized (equalityCheck opts) sel' (call_state c)
             (selector (fst (getOrCreateCacheEntry opts (call_params c) (call_now c) s)))
           = run_memoized (equalityCheck opts) sel (call_state c)
             (selector (fst (getOrCreateCacheEntry opts (call_params c) (call_now c) s)))"
  shows "factorySelector opts sel' c s = factorySelector opts sel c s"
proof -
  obtain e1 s1 where g: "getOrCreateCacheEntry opts (call_params c) (call_now c) s = (e1, s1)"
    by (cases "getOrCreateCacheEntry opts (call_params c) (call_now c) s")
  have "computeResult opts sel' (call_state c) (call_perfNow c) e1 s1
          = computeResult opts sel (call_state c) (call_perfNow c) e1 s1"
    using assms by (simp add: computeResult_def g)
  then show ?thesis by (simp add: factorySelector_def g)
qed

text \<open>
  Claim C2, amended. On a factory instance in a state that satisfies the store invariant,
  with \<open>1 \<le> maxSize\<close>, two consecutive calls with the same state and the same arguments,
  the entry of the key not expired at the second call: the second call returns what the
  first returned, registers as a hit (\<^verbatim>\<open>totalHits\<close> and the entry's \<^verbatim>\<open>hits\<close> are
  incremented, \<^verbatim>\<open>totalMisses\<close> and the entry's \<^verbatim>\<open>misses\<close> are not), and, when the
  first call returned a result, does not call the wrapped selector: the second call
  returns that same result and leaves that same state whatever the wrapped selector is,
  and the entry's memoized selector, with its count of recomputations, is as the first
  call left it.
\<close>

theorem memoization_second_call_hits:
  fixes opts :: "'r options" and sel :: "'st \<Rightarrow> jsval list \<Rightarrow> 'e + 'r"
    and s :: "('st, 'r) factory" and c1 c2 :: "'st call"
  defines "key \<equiv> getCacheKeyForParams (call_params c1)"
  defines "s1 \<equiv> snd (factorySelector opts sel c1 s)"
  defines "s2 \<equiv> snd (factorySelector opts sel c2 s1)"
  assumes inv: "store_inv s" and m: "1 \<le> maxSize opts"
    and st: "call_state c2 = call_state c1" and ps: "call_params c2 = call_params c1"
    and live: "live_entry opts (call_now c2) s1 key"
  shows "fst (factorySelector opts sel c2 s1) = fst (factorySelector opts sel c1 s)
       \<and> registers_hit s1 s2
       \<and> (\<exists>ea eb. map_of (selectorCache s1) key = Some ea \<and> map_of (selectorCache s2) key = Some eb
              \<and> hits eb = hits ea + 1 \<and> misses eb = misses ea
              \<and> (\<forall>v. fst (factorySelector opts sel c1 s) = Inr v \<longrightarrow> selector eb = selector ea))
       \<and> (\<forall>v. fst (factorySelector opts sel c1 s) = Inr v \<longrightarrow>
             (\<forall>sel' :: 'st \<Rightarrow> jsval list \<Rightarrow> 'e + 'r.
                factorySelector opts sel' c2 s1 = (Inr v, s2)))"
proof -
  let ?eq = "equalityCheck opts"
  let ?st = "call_state c1"
  obtain e1 t1 where g1: "getOrCreateCacheEntry opts (call_params c1) (call_now c1) s = (e1, t1)"
    by (cases "getOrCreateCacheEntry opts (call_params c1) (call_now c1) s")
  have pres: "getCacheKeyForParams (call_params c1) \<in> set (cache_keys t1)"
    using key_present_after_lookup[OF inv m, of "call_params c1" "call_now c1"] by (simp add: g1)
  obtain ea where ea: "map_of (selectorCache s1) key = Some ea"
    and sel_ea: "selector ea = snd (run_memoized ?eq sel ?st (selector e1))"
    unfolding s1_def key_def using factorySelector_entry[OF g1 pres, of sel] by blast
  have r1: "fst (factorySelector opts sel c1 s) = fst (run_memoized ?eq sel ?st (selector e1))"
    by (simp add: factorySelector_result g1)
  have live2: "live_entry opts (call_now c2) s1 (getCacheKeyForParams (call_params c2))"
    using live by (simp add: key_def ps)
  from live2 obtain e where e: "map_of (selectorCache s1) (getCacheKeyForParams (call_params c2)) = Some e"
    and g2: "getOrCreateCacheEntry opts (call_params c2) (call_now c2) s1 =
      (e\<lparr>lastUsed := call_now c2, hits := hits e + 1\<rparr>,
       s1\<lparr>selectorCache := AList.update (getCacheKeyForParams (call_params c2))
                              (e\<lparr>lastUsed := call_now c2, hits := hits e + 1\<rparr>) (selectorCache s1),
          keyUsage := remove1 (getCacheKeyForParams (call_params c2)) (keyUsage s1)
                        @ [getCacheKeyForParams (call_params c2)],
          totalHits := totalHits s1 + 1\<rparr>)"
    by (rule live_entry_lookup)
  from e ea have eq_e: "e = ea" by (simp add: key_def ps)
  have "getCacheKeyForParams (call_params c2) \<in> set (cache_keys s1)"
    using e by (auto simp: cache_keys_def dest: map_of_SomeD intro: rev_image_eqI)
  then have pres2: "getCacheKeyForParams (call_params c2)
      \<in> set (cache_keys (snd (getOrCreateCacheEntry opts (call_params c2) (call_now c2) s1)))"
    by (simp add: lookup_registers_hit(2)[OF live2])
  let ?e' = "e\<lparr>lastUsed := call_now c2, hits := hits e + 1\<rparr>"
  from pres2 have p: "getCacheKeyForParams (call_params c2)
        \<in> set (cache_keys (s1\<lparr>selectorCache := AList.update (getCacheKeyForParams (call_params c2))
                              (e\<lparr>lastUsed := call_now c2, hits := hits e + 1\<rparr>) (selectorCache s1),
          keyUsage := remove1 (getCacheKeyForParams (call_params c2)) (keyUsage s1)
                        @ [getCacheKeyForParams (call_params c2)],
          totalHits := totalHits s1 + 1\<rparr>))"
    by (simp add: g2)
  obtain eb where
    eb0: "map_of (selectorCache (snd (factorySelector opts sel c2 s1)))
            (getCacheKeyForParams (call_params c2)) = Some eb"
    and sel_eb0: "selector eb = snd (run_memoized ?eq sel (call_state c2) (selector ?e'))"
    and hits_eb0: "hits eb = hits ?e'" and misses_eb0: "misses eb = misses ?e'"
    using factorySelector_entry[OF g2 p, of sel] by blast
  have eb: "map_of (selectorCache s2) key = Some eb"
    using eb0 by (simp add: s2_def key_def ps)
  have sel_eb: "selector eb = snd (run_memoized ?eq sel ?st (selector ea))"
    using sel_eb0 by (simp add: st eq_e)
  have hits_eb: "hits eb = hits ea + 1" using hits_eb0 by (simp add: eq_e)
  have misses_eb: "misses eb = misses ea" using misses_eb0 by (simp add: eq_e)
  have r2: "fst (factorySelector opts sel c2 s1) = fst (run_memoized ?eq sel ?st (selector ea))"
    by (simp add: factorySelector_result g2 st eq_e)
  obtain r m' where rm: "run_memoized ?eq sel ?st (selector e1) = (r, m')"
    by (cases "run_memoized ?eq sel ?st (selector e1)")
  have same: "fst (factorySelector opts sel c2 s1) = fst (factorySelector opts sel c1 s)"
    using run_memoized_again(1)[OF rm] by (simp add: r1 r2 sel_ea rm)
  have hit: "registers_hit s1 s2"
    unfolding s2_def registers_hit_iff using live2 .
  have keep: "selector eb = selector ea" if "fst (factorySelector opts sel c1 s) = Inr v" for v
  proof -
    from that have "r = Inr v" by (simp add: r1 rm)
    from run_memoized_again(2)[OF rm this] show ?thesis
      by (simp add: sel_eb sel_ea rm)
  qed
  have indep: "factorySelector opts sel' c2 s1 = (Inr v, s2)"
    if first: "fst (factorySelector opts sel c1 s) = Inr v"
    for v and sel' :: "'st \<Rightarrow> jsval list \<Rightarrow> 'e + 'r"
  proof -
    from first have "r = Inr v" by (simp add: r1 rm)
    with rm have "last_call m' = Some (?st, v)" by (simp add: run_memoized_remembers)
    moreover have "selector ea = m'" by (simp add: sel_ea rm)
    ultimately have lc: "last_call (selector ea) = Some (?st, v)" by simp
    have "run_memoized ?eq sel' (call_state c2)
            (selector (fst (getOrCreateCacheEntry opts (call_params c2) (call_now c2) s1)))
          = run_memoized ?eq sel (call_state c2)
            (selector (fst (getOrCreateCacheEntry opts (call_params c2) (call_now c2) s1)))"
      by (simp add: g2 eq_e st run_memoized_remembered[OF lc])
    then have "factorySelector opts sel' c2 s1 = factorySelector opts sel c2 s1"
      by (rule factorySelector_same_runs)
    also have "\<dots> = (fst (factorySelector opts sel c2 s1), s2)" by (simp add: s2_def)
    also have "\<dots> = (Inr v, s2)" using same first by simp
    finally show ?thesis .
  qed
  have rest: "\<exists>ea eb. map_of (selectorCache s1) key = Some ea \<and> map_of (selectorCache s2) key = Some eb
              \<and> hits eb = hits ea + 1 \<and> misses eb = misses ea
              \<and> (\<forall>v. fst (factorySelector opts sel c1 s) = Inr v \<longrightarrow> selector eb = selector ea)"
    using ea eb hits_eb misses_eb keep by blast
  have indep': "\<forall>v. fst (factorySelector opts sel c1 s) = Inr v \<longrightarrow>
             (\<forall>sel' :: 'st \<Rightarrow> jsval list \<Rightarrow> 'e + 'r.
                factorySelector opts sel' c2 s1 = (Inr v, s2))"
    by (intro allI impI) (rule indep)
  from same hit rest indep' show ?thesis by (intro conjI)
qed

theorem memoization_second_call_hits_witness:
  "store_inv (createParameterizedSelector :: (nat, nat) factory)
   \<and> 1 \<le> maxSize (DEFAULT_OPTIONS\<lparr>expireAfter := Some 50\<rparr> :: nat options)
   \<and> live_entry (DEFAULT_OPTIONS\<lparr>expireAfter := Some 50\<rparr>) (call_now (call_at (7::nat) [JNum 1] 30))
        (snd (factorySelector (DEFAULT_OPTIONS\<lparr>expireAfter := Some 50\<rparr>) count_params
               (call_at 7 [JNum 1] 0) createParameterizedSelector))
        (getCacheKeyForParams (call_params (call_at (7::nat) [JNum 1] 0)))
   \<and> fst (factorySelector (DEFAULT_OPTIONS\<lparr>expireAfter := Some 50\<rparr>) count_params
        (call_at 7 [JNum 1] 30)
        (snd (factorySelector (DEFAULT_OPTIONS\<lparr>expireAfter := Some 50\<rparr>) count_params
               (call_at 7 [JNum 1] 0) createParameterizedSelector))) = Inr 8
   \<and> fst (factorySelector (DEFAULT_OPTIONS\<lparr>expireAfter := Some 50\<rparr>) (\<lambda>st ps. Inl ())
        (call_at 7 [JNum 1] 30)
        (snd (factorySelector (DEFAULT_OPTIONS\<lparr>expireAfter := Some 50\<rparr>) count_params
               (call_at 7 [JNum 1] 0) createParameterizedSelector))) = Inr 8
   \<and> registers_hit
        (snd (factorySelector (DEFAULT_OPTIONS\<lparr>expireAfter := Some 50\<rparr>) count_params
               (call_at 7 [JNum 1] 0) createParameterizedSelector))
        (snd (factorySelector (DEFAULT_OPTIONS\<lparr>expireAfter := Some 50\<rparr>) count_params
          (call_at 7 [JNum 1] 30)
          (snd (factorySelector (DEFAULT_OPTIONS\<lparr>expireAfter := Some 50\<rparr>) count_params
               (call_at 7 [JNum 1] 0) createParameterizedSelector))))"
proof -
  let ?o = "DEFAULT_OPTIONS\<lparr>expireAfter := Some 50\<rparr> :: nat options"
  let ?c1 = "call_at (7::nat) [JNum 1] 0"
  let ?c2 = "call_at (7::nat) [JNum 1] 30"
  have h1: "store_inv (createParameterizedSelector :: (nat, nat) factory)"
    by (rule store_inv_create)
  have h2: "1 \<le> maxSize ?o" by (simp add: DEFAULT_OPTIONS_def)
  have h3: "call_state ?c2 = call_state ?c1" by (simp add: call_at_def)
  have h4: "call_params ?c2 = call_params ?c1" by (simp add: call_at_def)
  have h5: "live_entry ?o (call_now ?c2)
        (snd (factorySelector ?o count_params ?c1 createParameterizedSelector))
        (getCacheKeyForParams (call_params ?c1))"
    by code_simp
  have first: "fst (factorySelector ?o count_params ?c1 createParameterizedSelector) = Inr 8"
    by code_simp
  note second = memoization_second_call_hits[OF h1 h2 h3 h4 h5]
  note same = second[THEN conjunct1]
  note hit = second[THEN conjunct2, THEN conjunct1]
  note any = second[THEN conjunct2, THEN conjunct2, THEN conjunct2, rule_format, OF first]
  have indep: "fst (factorySelector ?o (\<lambda>st ps. Inl ()) ?c2
        (snd (factorySelector ?o count_params ?c1 createParameterizedSelector))) = Inr 8"
    using arg_cong[OF any[of "\<lambda>st ps. Inl ()"], of fst] unfolding fst_conv .
  from same first have again: "fst (factorySelector ?o count_params ?c2
        (snd (factorySelector ?o count_params ?c1 createParameterizedSelector))) = Inr 8"
    by simp
  from h1 h2 h5 again indep hit show ?thesis by (intro conjI)
qed

subsection \<open>Eviction order on distinct keys\<close>

theorem lru_key_collision_counterexample:
  "JNull \<noteq> JUndefined \<and> JUndefined \<noteq> JNum 1 \<and> JNull \<noteq> JNum 1
   \<and> cache_keys (run_calls (DEFAULT_OPTIONS\<lparr>maxSize := 2\<rparr>) count_params
        [call_at 0 [JNull] 1, call_at 0 [JUndefined] 2, call_at 0 [JNum 1] 3]
        createParameterizedSelector)
       = [getCacheKeyForParams [JNull], getCacheKeyForParams [JNum 1]]
   \<and> registers_hit
        (run_calls (DEFAULT_OPTIONS\<lparr>maxSize := 2\<rparr>) count_params
          [call_at 0 [JNull] 1, call_at 0 [JUndefined] 2, call_at 0 [JNum 1] 3]
          createParameterizedSelector)
        (snd (factorySelector (DEFAULT_OPTIONS\<lparr>maxSize := 2\<rparr>) count_params
               (call_at 0 [JNull] 4)
               (run_calls (DEFAULT_OPTIONS\<lparr>maxSize := 2\<rparr>) count_params
                 [call_at 0 [JNull] 1, call_at 0 [JUndefined] 2, call_at 0 [JNum 1] 3]
                 createParameterizedSelector)))"
  by code_simp

text \<open>
  Claim C3, amended. With \<^verbatim>\<open>maxSize = 2\<close> and no \<^verbatim>\<open>expireAfter\<close>, on a new factory instance,
  calls with arguments \<open>a\<close>, then \<open>b\<close>, then \<open>c\<close>, whose cache keys differ from one another,
  leave exactly the entries of \<open>b\<close> and \<open>c\<close>, in this LRU order: the entry of \<open>a\<close>, the
  head of the LRU order, is the one evicted. A call with \<open>a\<close> right after is a miss;
  calls with \<open>b\<close> and then \<open>c\<close> are hits, and a call with \<open>a\<close> after them is a miss.
\<close>

theorem lru_eviction_order:
  fixes opts :: "'r options" and sel :: "'st \<Rightarrow> jsval list \<Rightarrow> 'e + 'r"
    and ca cb cc cb' cc' ca' :: "'st call"
  defines "ka \<equiv> getCacheKeyForParams (call_params ca)"
  defines "kb \<equiv> getCacheKeyForParams (call_params cb)"
  defines "kc \<equiv> getCacheKeyForParams (call_params cc)"
  defines "s3 \<equiv> run_calls opts sel [ca, cb, cc] createParameterizedSelector"
  defines "s4 \<equiv> snd (factorySelector opts sel cb' s3)"
  defines "s5 \<equiv> snd (factorySelector opts sel cc' s4)"
  assumes size: "maxSize opts = 2" and noexp: "expireAfter opts = None"
    and keys: "ka \<noteq> kb" "ka \<noteq> kc" "kb \<noteq> kc"
    and again: "call_params ca' = call_params ca" "call_params cb' = call_params cb"
      "call_params cc' = call_params cc"
  shows "cache_keys s3 = [kb, kc] \<and> keyUsage s3 = [kb, kc]
       \<and> registers_miss s3 (snd (factorySelector opts sel ca' s3))
       \<and> registers_hit s3 s4 \<and> registers_hit s4 s5
       \<and> registers_miss s5 (snd (factorySelector opts sel ca' s5))"
proof -
  let ?s0 = "createParameterizedSelector :: ('st, 'r) factory"
  let ?s1 = "snd (factorySelector opts sel ca ?s0)"
  let ?s2 = "snd (factorySelector opts sel cb ?s1)"
  have s3: "s3 = snd (factorySelector opts sel cc ?s2)" by (simp add: s3_def)
  have i0: "store_inv ?s0" by (rule store_inv_create)
  have i1: "store_inv ?s1" by (rule store_inv_factorySelector[OF i0])
  have i2: "store_inv ?s2" by (rule store_inv_factorySelector[OF i1])
  have i3: "store_inv s3" unfolding s3 by (rule store_inv_factorySelector[OF i2])
  have i4: "store_inv s4" unfolding s4_def by (rule store_inv_factorySelector[OF i3])
  have i5: "store_inv s5" unfolding s5_def by (rule store_inv_factorySelector[OF i4])
  have k0: "cache_keys ?s0 = []" "keyUsage ?s0 = []"
    by (simp_all add: cache_keys_def createParameterizedSelector_def)
  have k1: "cache_keys ?s1 = [ka] \<and> keyUsage ?s1 = [ka]"
    using call_on_absent_key(2)[OF i0, of ca opts sel] size by (simp add: k0 ka_def)
  have k2: "cache_keys ?s2 = [ka, kb] \<and> keyUsage ?s2 = [ka, kb]"
    using call_on_absent_key(2)[OF i1, of cb opts sel] size keys by (simp add: k1 kb_def)
  have k3: "cache_keys s3 = [kb, kc] \<and> keyUsage s3 = [kb, kc]"
    unfolding s3
    using call_on_absent_key(3)[OF i2, of cc opts sel] size keys by (simp add: k2 kc_def)
  have m3: "registers_miss s3 (snd (factorySelector opts sel ca' s3))"
    using call_on_absent_key(1)[OF i3, of ca' opts sel] keys by (simp add: k3 again ka_def)
  have lb: "live_entry opts (call_now cb') s3 (getCacheKeyForParams (call_params cb'))"
    by (rule present_live_without_expiry[OF noexp]) (simp add: k3 again kb_def)
  have h4: "registers_hit s3 s4"
    unfolding s4_def by (rule call_on_live_key(1)[OF lb])
  have k4: "cache_keys s4 = [kb, kc] \<and> keyUsage s4 = [kc, kb]"
    unfolding s4_def using call_on_live_key(2,3)[OF lb, of sel] by (simp add: k3 again kb_def)
  have lc: "live_entry opts (call_now cc') s4 (getCacheKeyForParams (call_params cc'))"
    by (rule present_live_without_expiry[OF noexp]) (simp add: k4 again kc_def)
  have h5: "registers_hit s4 s5"
    unfolding s5_def by (rule call_on_live_key(1)[OF lc])
  have k5: "cache_keys s5 = [kb, kc] \<and> keyUsage s5 = [kb, kc]"
    unfolding s5_def using call_on_live_key(2,3)[OF lc, of sel] keys by (simp add: k4 again kc_def)
  have m5: "registers_miss s5 (snd (factorySelector opts sel ca' s5))"
    using call_on_absent_key(1)[OF i5, of ca' opts sel] keys by (simp add: k5 again ka_def)
  from k3 m3 h4 h5 m5 show ?thesis by blast
qed

theorem lru_eviction_order_witness:
  "maxSize (DEFAULT_OPTIONS\<lparr>maxSize := 2\<rparr> :: nat options) = 2
   \<and> expireAfter (DEFAULT_OPTIONS\<lparr>maxSize := 2\<rparr> :: nat options) = None
   \<and> getCacheKeyForParams [JStr ''a''] \<noteq> getCacheKeyForParams [JStr ''b'']
   \<and> getCacheKeyForParams [JStr ''a''] \<noteq> getCacheKeyForParams [JStr ''c'']
   \<and> getCacheKeyForParams [JStr ''b''] \<noteq> getCacheKeyForParams [JStr ''c'']
   \<and> cache_keys (run_calls (DEFAULT_OPTIONS\<lparr>maxSize := 2\<rparr>) count_params
         [call_at 0 [JStr ''a''] 1, call_at 0 [JStr ''b''] 2, call_at 0 [JStr ''c''] 3]
         createParameterizedSelector)
       = [getCacheKeyForParams [JStr ''b''], getCacheKeyForParams [JStr ''c'']]
   \<and> registers_miss
         (run_calls (DEFAULT_OPTIONS\<lparr>maxSize := 2\<rparr>) count_params
           [call_at 0 [JStr ''a''] 1, call_at 0 [JStr ''b''] 2, call_at 0 [JStr ''c''] 3]
           createParameterizedSelector)
         (snd (factorySelector (DEFAULT_OPTIONS\<lparr>maxSize := 2\<rparr>) count_params
                (call_at 0 [JStr ''a''] 4)
                (run_calls (DEFAULT_OPTIONS\<lparr>maxSize := 2\<rparr>) count_params
                  [call_at 0 [JStr ''a''] 1, call_at 0 [JStr ''b''] 2, call_at 0 [JStr ''c''] 3]
                  createParameterizedSelector)))
   \<and> registers_hit
         (run_calls (DEFAULT_OPTIONS\<lparr>maxSize := 2\<rparr>) count_params
           [call_at 0 [JStr ''a''] 1, call_at 0 [JStr ''b''] 2, call_at 0 [JStr ''c''] 3]
           createParameterizedSelector)
         (snd (factorySelector (DEFAULT_OPTIONS\<lparr>maxSize := 2\<rparr>) count_params
                (call_at 0 [JStr ''b''] 4)
                (run_calls (DEFAULT_OPTIONS\<lparr>maxSize := 2\<rparr>) count_params
                  [call_at 0 [JStr ''a''] 1, call_at 0 [JStr ''b''] 2, call_at 0 [JStr ''c''] 3]
                  createParameterizedSelector)))"
proof -
  let ?o = "DEFAULT_OPTIONS\<lparr>maxSize := 2\<rparr> :: nat options"
  let ?ca = "call_at (0::nat) [JStr ''a''] 1"
  let ?cb = "call_at (0::nat) [JStr ''b''] 2"
  let ?cc = "call_at (0::nat) [JStr ''c''] 3"
  let ?ca' = "call_at (0::nat) [JStr ''a''] 4"
  let ?cb' = "call_at (0::nat) [JStr ''b''] 4"
  let ?cc' = "call_at (0::nat) [JStr ''c''] 5"
  have size: "maxSize ?o = 2" by simp
  have noexp: "expireAfter ?o = None" by (simp add: DEFAULT_OPTIONS_def)
  have kd: "getCacheKeyForParams [JStr ''a''] \<noteq> getCacheKeyForParams [JStr ''b'']"
    "getCacheKeyForParams [JStr ''a''] \<noteq> getCacheKeyForParams [JStr ''c'']"
    "getCacheKeyForParams [JStr ''b''] \<noteq> getCacheKeyForParams [JStr ''c'']"
    by code_simp+
  have keys: "getCacheKeyForParams (call_params ?ca) \<noteq> getCacheKeyForParams (call_params ?cb)"
    "getCacheKeyForParams (call_params ?ca) \<noteq> getCacheKeyForParams (call_params ?cc)"
    "getCacheKeyForParams (call_params ?cb) \<noteq> getCacheKeyForParams (call_params ?cc)"
    using kd by (simp_all add: call_at_def)
  have again: "call_params ?ca' = call_params ?ca" "call_params ?cb' = call_params ?cb"
    "call_params ?cc' = call_params ?cc"
    by (simp_all add: call_at_def)
  from lru_eviction_order[where opts = ?o and sel = count_params, OF size noexp keys again]
  have "cache_keys (run_calls ?o count_params [?ca, ?cb, ?cc] createParameterizedSelector)
          = [getCacheKeyForParams (call_params ?cb), getCacheKeyForParams (call_params ?cc)]"
    and "registers_miss (run_calls ?o count_params [?ca, ?cb, ?cc] createParameterizedSelector)
          (snd (factorySelector ?o count_params ?ca'
                 (run_calls ?o count_params [?ca, ?cb, ?cc] createParameterizedSelector)))"
    and "registers_hit (run_calls ?o count_params [?ca, ?cb, ?cc] createParameterizedSelector)
          (snd (factorySelector ?o count_params ?cb'
                 (run_calls ?o count_params [?ca, ?cb, ?cc] createParameterizedSelector)))"
    by blast+
  then show ?thesis using size noexp kd by (simp add: call_at_def)
qed

end
